theory Spec2Isabelle
  imports Complex_Main "HOL-Library.Multiset" "HOL-Library.Sublist" "HOL-Library.Product_Lexorder"
begin

section \<open>Python values used by the role services\<close>

text \<open>
  The exceptions the modelled code can raise.  \<open>ValueError\<close> is what
  \<^verbatim>\<open>random.sample\<close> raises for a negative or too large sample size and
  \<^verbatim>\<open>difflib.get_close_matches\<close> for a cutoff outside of 0 to 1,
  \<open>JSONDecodeError\<close> is what \<^verbatim>\<open>json.load\<close> raises on text that is not JSON,
  \<open>KeyError\<close> is what a dictionary raises for a key it does not hold.
\<close>

datatype py_error = ValueError | JSONDecodeError | KeyError

text \<open>
  \<^verbatim>\<open>str.lower\<close> and \<^verbatim>\<open>str.strip\<close> on the ASCII range.  A \<open>char\<close> is a
  byte; bytes from 128 on are left as they are.  The whitespace characters are those
  of \<^verbatim>\<open>str.isspace\<close> below 128: 9 to 13, 28 to 31 and the blank.
\<close>

definition lower_char :: "char \<Rightarrow> char" where
  "lower_char c =
     (let n = (of_char c :: nat) in if 65 \<le> n \<and> n \<le> 90 then char_of (n + 32) else c)"

definition lower :: "string \<Rightarrow> string" where
  "lower s = map lower_char s"

definition isspace :: "char \<Rightarrow> bool" where
  "isspace c =
     (let n = (of_char c :: nat) in (9 \<le> n \<and> n \<le> 13) \<or> (28 \<le> n \<and> n \<le> 31) \<or> n = 32)"

definition strip :: "string \<Rightarrow> string" where
  "strip s = rev (dropWhile isspace (rev (dropWhile isspace s)))"

text \<open>Python slices \<^verbatim>\<open>xs[:c]\<close> and \<^verbatim>\<open>xs[i:]\<close>; a negative bound counts from the end.\<close>

definition slice_to :: "'a list \<Rightarrow> int \<Rightarrow> 'a list" where
  "slice_to xs c = (if 0 \<le> c then take (nat c) xs else take (length xs - nat (- c)) xs)"

definition slice_from :: "'a list \<Rightarrow> int \<Rightarrow> 'a list" where
  "slice_from xs i = (if 0 \<le> i then drop (nat i) xs else drop (length xs - nat (- i)) xs)"

section \<open>The random source\<close>

text \<open>
  The process-global random generator is made explicit: a list of draws, consumed from
  the front; an exhausted source answers 0.  \<open>randbelow n\<close> is a number below \<open>n\<close>.
  \<open>random_sample\<close> and \<open>random_shuffle\<close> follow \<^verbatim>\<open>random.sample\<close> (the
  pool branch: pick a position of the pool, move the last pool item into the vacancy)
  and \<^verbatim>\<open>random.shuffle\<close> (exchange \<open>x[i]\<close> with a random \<open>x[j]\<close>, \<open>j \<le> i\<close>,
  for \<open>i\<close> from the end down to 1) of the Python standard library.
\<close>

type_synonym rng = "nat list"

definition randbelow :: "nat \<Rightarrow> rng \<Rightarrow> nat \<times> rng" where
  "randbelow n g = (case g of [] \<Rightarrow> (0, []) | d # ds \<Rightarrow> (d mod n, ds))"

fun sample_pool :: "'a list \<Rightarrow> nat \<Rightarrow> rng \<Rightarrow> 'a list \<times> rng" where
  "sample_pool pool 0 g = ([], g)"
| "sample_pool pool (Suc k) g =
     (let (j, g1) = randbelow (length pool) g;
          (rest, g2) = sample_pool (butlast (pool[j := last pool])) k g1
      in (pool ! j # rest, g2))"

definition random_sample :: "'a list \<Rightarrow> int \<Rightarrow> rng \<Rightarrow> py_error + ('a list \<times> rng)" where
  "random_sample population k g =
     (if \<not> (0 \<le> k \<and> k \<le> int (length population)) then Inl ValueError
      else Inr (sample_pool population (nat k) g))"

fun shuffle_loop :: "nat \<Rightarrow> 'a list \<Rightarrow> rng \<Rightarrow> 'a list \<times> rng" where
  "shuffle_loop 0 x g = (x, g)"
| "shuffle_loop (Suc i) x g =
     (let (j, g1) = randbelow (Suc i + 1) g
      in shuffle_loop i (x[Suc i := x ! j, j := x ! Suc i]) g1)"

definition random_shuffle :: "'a list \<Rightarrow> rng \<Rightarrow> 'a list \<times> rng" where
  "random_shuffle x g = shuffle_loop (length x - 1) x g"

section \<open>Role records and the role database\<close>

text \<open>
  A role of the catalog: its name and the four work style metrics.  A metric is
  optional, as the code reads each with \<^verbatim>\<open>role.get(key, 5)\<close>.
\<close>

record role =
  name :: string
  technical :: "int option"
  creative :: "int option"
  business :: "int option"
  customer :: "int option"

text \<open>An entry \<^verbatim>\<open>{'name': ..., 'distance': ...}\<close> of a close or oddball list.\<close>

record match_entry =
  entry_name :: string
  entry_distance :: real

record overlap_entry =
  close :: "match_entry list"
  oddball :: "match_entry list"

text \<open>
  The three lazily loaded attributes of \<^verbatim>\<open>RoleDatabase\<close>, once loaded:
  dictionaries are maps.
\<close>

record role_database =
  all_roles :: "role list"
  roles_normalized :: "string \<rightharpoonup> string"
  overlaps :: "string \<rightharpoonup> overlap_entry"

definition CLOSE_POOL_SIZE :: int where "CLOSE_POOL_SIZE = 15"
definition ODDBALL_POOL_SIZE :: int where "ODDBALL_POOL_SIZE = 5"

text \<open>\<^verbatim>\<open>dict.get(key, 5)\<close> on a metric.\<close>

definition get5 :: "int option \<Rightarrow> int" where
  "get5 v = (case v of None \<Rightarrow> 5 | Some x \<Rightarrow> x)"

type_synonym metric_tuple = "int \<times> int \<times> int \<times> int"

definition metrics_of_role :: "role \<Rightarrow> metric_tuple" where
  "metrics_of_role r =
     (get5 (technical r), get5 (creative r), get5 (business r), get5 (customer r))"

text \<open>
  \<^verbatim>\<open>sum((a - b)**2 for a, b in zip(m1, m2)) ** 0.5\<close>: the sum of squares is an exact
  integer, its square root is taken in the reals.
\<close>

fun calculate_distance :: "metric_tuple \<Rightarrow> metric_tuple \<Rightarrow> real" where
  "calculate_distance (a1, a2, a3, a4) (b1, b2, b3, b4) =
     sqrt (real_of_int ((a1 - b1)\<^sup>2 + (a2 - b2)\<^sup>2 + (a3 - b3)\<^sup>2 + (a4 - b4)\<^sup>2))"

definition normalize :: "string \<Rightarrow> string" where
  "normalize s = strip (lower s)"

text \<open>
  The roles file as the loaders find it: absent, present with text that is not JSON,
  or a JSON object whose \<open>roles\<close> key is absent (\<open>None\<close>) or holds a list of
  roles.
\<close>

datatype file_state = NoFile | BadJson | Json "role list option"

text \<open>\<^verbatim>\<open>data.get('roles', [])\<close>.\<close>

definition get_roles :: "role list option \<Rightarrow> role list" where
  "get_roles d = (case d of None \<Rightarrow> [] | Some rs \<Rightarrow> rs)"

text \<open>The loop of \<^verbatim>\<open>_load_normalized\<close>: a later role overwrites an equal key.\<close>

definition role_map :: "role list \<Rightarrow> (string \<rightharpoonup> string)" where
  "role_map data_roles =
     fold (\<lambda>role_obj m. m(normalize (name role_obj) \<mapsto> name role_obj))
       data_roles Map.empty"

text \<open>
  What the loading code prints: the warning of \<^verbatim>\<open>_load_normalized\<close> with the path
  of the file, and the two lines of \<^verbatim>\<open>init_role_database\<close> with their counts.
\<close>

datatype printed = Warning_not_found string | Loaded_roles nat | Calculated_overlaps nat

text \<open>
  \<^verbatim>\<open>_load_normalized\<close> and \<^verbatim>\<open>_load_all_roles\<close> on the file at \<open>path\<close>.
  The first component of \<open>load_normalized\<close> is what it prints;
  \<^verbatim>\<open>_load_all_roles\<close> prints nothing.  Neither catches what \<^verbatim>\<open>json.load\<close>
  raises.
\<close>

definition load_normalized ::
  "string \<Rightarrow> file_state \<Rightarrow> printed list \<times> (py_error + (string \<rightharpoonup> string))" where
  "load_normalized path f =
     (case f of
        NoFile \<Rightarrow> ([Warning_not_found path], Inr Map.empty)
      | BadJson \<Rightarrow> ([], Inl JSONDecodeError)
      | Json d \<Rightarrow> ([], Inr (role_map (get_roles d))))"

definition load_all_roles :: "file_state \<Rightarrow> py_error + role list" where
  "load_all_roles f =
     (case f of
        NoFile \<Rightarrow> Inr []
      | BadJson \<Rightarrow> Inl JSONDecodeError
      | Json d \<Rightarrow> Inr (get_roles d))"

text \<open>
  The body of the outer loop of \<^verbatim>\<open>_calculate_overlaps\<close> for one role: the
  (name, distance) pairs of the roles of another name, sorted by distance with a stable
  sort, then sliced.  \<open>oddball_pool\<close> is \<^verbatim>\<open>int(ODDBALL_POOL_SIZE * 1.6)\<close>.
\<close>

definition distances_of :: "role list \<Rightarrow> role \<Rightarrow> (string \<times> real) list" where
  "distances_of rs r =
     map (\<lambda>other. (name other, calculate_distance (metrics_of_role r) (metrics_of_role other)))
       (filter (\<lambda>other. name other \<noteq> name r) rs)"

definition to_entry :: "string \<times> real \<Rightarrow> match_entry" where
  "to_entry d = \<lparr>entry_name = fst d, entry_distance = snd d\<rparr>"

definition oddball_pool :: int where
  "oddball_pool = (ODDBALL_POOL_SIZE * 16) div 10"

definition overlap_of :: "role list \<Rightarrow> role \<Rightarrow> overlap_entry" where
  "overlap_of rs r =
     (let distances = sort_key snd (distances_of rs r);
          close_matches = map to_entry (slice_to distances CLOSE_POOL_SIZE);
          oddball_candidates = map to_entry (slice_from distances (- oddball_pool))
      in \<lparr>close = close_matches, oddball = slice_to oddball_candidates ODDBALL_POOL_SIZE\<rparr>)"

definition calculate_overlaps :: "role list \<Rightarrow> (string \<rightharpoonup> overlap_entry)" where
  "calculate_overlaps rs = fold (\<lambda>r ov. ov(name r \<mapsto> overlap_of rs r)) rs Map.empty"

text \<open>The database after all three attributes were loaded from the same roles.\<close>

definition loaded :: "role list \<Rightarrow> role_database" where
  "loaded rs =
     \<lparr>all_roles = rs, roles_normalized = role_map rs, overlaps = calculate_overlaps rs\<rparr>"

section \<open>Lazy loading at startup\<close>

text \<open>
  The \<^verbatim>\<open>RoleDatabase\<close> object: its three private attributes, \<open>None\<close> until
  the property of the same name is first read.  A property returns the cached value, or
  loads, stores and returns it; an exception of the loader leaves the object as it was.
\<close>

record database_object =
  normalized_attr :: "(string \<rightharpoonup> string) option"
  overlaps_attr :: "(string \<rightharpoonup> overlap_entry) option"
  all_roles_attr :: "role list option"

definition new_database :: database_object where
  "new_database = \<lparr>normalized_attr = None, overlaps_attr = None, all_roles_attr = None\<rparr>"

definition prop_roles_normalized ::
  "string \<Rightarrow> file_state \<Rightarrow> database_object
     \<Rightarrow> printed list \<times> (py_error + (string \<rightharpoonup> string) \<times> database_object)" where
  "prop_roles_normalized path f db =
     (case normalized_attr db of
        Some m \<Rightarrow> ([], Inr (m, db))
      | None \<Rightarrow>
          (case load_normalized path f of
             (out, Inl e) \<Rightarrow> (out, Inl e)
           | (out, Inr m) \<Rightarrow> (out, Inr (m, db\<lparr>normalized_attr := Some m\<rparr>))))"

definition prop_all_roles ::
  "file_state \<Rightarrow> database_object \<Rightarrow> py_error + role list \<times> database_object" where
  "prop_all_roles f db =
     (case all_roles_attr db of
        Some rs \<Rightarrow> Inr (rs, db)
      | None \<Rightarrow>
          (case load_all_roles f of
             Inl e \<Rightarrow> Inl e
           | Inr rs \<Rightarrow> Inr (rs, db\<lparr>all_roles_attr := Some rs\<rparr>)))"

definition prop_overlaps ::
  "file_state \<Rightarrow> database_object
     \<Rightarrow> py_error + (string \<rightharpoonup> overlap_entry) \<times> database_object" where
  "prop_overlaps f db =
     (case overlaps_attr db of
        Some ov \<Rightarrow> Inr (ov, db)
      | None \<Rightarrow>
          (case prop_all_roles f db of
             Inl e \<Rightarrow> Inl e
           | Inr (rs, db1) \<Rightarrow>
               Inr (calculate_overlaps rs, db1\<lparr>overlaps_attr := Some (calculate_overlaps rs)\<rparr>)))"

text \<open>
  \<^verbatim>\<open>init_role_database\<close> of the routes module, which the application runs at
  startup and whose exceptions it logs and raises again: read the name index and print
  its size, then read the overlaps and print their number.
\<close>

definition init_role_database ::
  "string \<Rightarrow> file_state \<Rightarrow> database_object \<Rightarrow> printed list \<times> (py_error + database_object)" where
  "init_role_database path f db =
     (case prop_roles_normalized path f db of
        (out, Inl e) \<Rightarrow> (out, Inl e)
      | (out, Inr (m, db1)) \<Rightarrow>
          (case prop_overlaps f db1 of
             Inl e \<Rightarrow> (out @ [Loaded_roles (card (dom m))], Inl e)
           | Inr (ov, db2) \<Rightarrow>
               (out @ [Loaded_roles (card (dom m)), Calculated_overlaps (card (dom ov))],
                Inr db2)))"

section \<open>The recommender\<close>

definition CLOSE_MATCHES_COUNT :: int where "CLOSE_MATCHES_COUNT = 20"
definition ODDBALL_COUNT :: int where "ODDBALL_COUNT = 7"

text \<open>
  A role as it is returned: the catalog record, and the \<open>distance\<close> key that only the
  personalized paths add to their copy.
\<close>

record shown_role =
  role_obj :: role
  distance :: "real option"

text \<open>
  The result dictionary; an absent key is \<open>None\<close>.  The type of the listed roles is
  left open: role records here, references to them in the object store further down.
\<close>

record 'r recommendation =
  roles :: "'r list"
  personalized :: bool
  current_role :: "string option"
  edge_case :: "bool option"

text \<open>The metrics dictionary of a request, as the pairs of its keys and values.\<close>

type_synonym metrics = "(string \<times> int) list"

definition metrics_get :: "metrics \<Rightarrow> string \<Rightarrow> int" where
  "metrics_get m k = (case map_of m k of None \<Rightarrow> 5 | Some v \<Rightarrow> v)"

text \<open>
  The loop that turns the selected entries into role records: the first role of that
  name is copied and gets the stored distance; an entry with no such role is skipped.
\<close>

fun roles_with_distance :: "role list \<Rightarrow> match_entry list \<Rightarrow> shown_role list" where
  "roles_with_distance rs [] = []"
| "roles_with_distance rs (sel # sels) =
     (case find (\<lambda>r. name r = entry_name sel) rs of
        None \<Rightarrow> roles_with_distance rs sels
      | Some r \<Rightarrow> \<lparr>role_obj = r, distance = Some (entry_distance sel)\<rparr>
                   # roles_with_distance rs sels)"

text \<open>
  Sampling, mixing and shuffling of the two pools, shared by both personalized paths.
  The sample sizes are never negative nor above the pool size, so the
  \<open>ValueError\<close> branches are kept only because \<open>random_sample\<close> has them.
\<close>

definition select_roles ::
  "match_entry list \<Rightarrow> match_entry list \<Rightarrow> rng \<Rightarrow> py_error + match_entry list" where
  "select_roles cl od g =
     (case random_sample cl (min CLOSE_MATCHES_COUNT (int (length cl))) g of
        Inl e \<Rightarrow> Inl e
      | Inr (selected_close, g1) \<Rightarrow>
          (case random_sample od (min ODDBALL_COUNT (int (length od))) g1 of
             Inl e \<Rightarrow> Inl e
           | Inr (selected_oddball, g2) \<Rightarrow>
               Inr (fst (random_shuffle (selected_close @ selected_oddball) g2))))"

definition get_roles_from_database ::
  "role_database \<Rightarrow> string \<Rightarrow> int \<Rightarrow> rng \<Rightarrow> py_error + shown_role recommendation" where
  "get_roles_from_database db normalized_role cnt g =
     (let canonical_role = the (roles_normalized db normalized_role) in
      case overlaps db canonical_role of
        None \<Rightarrow> Inr \<lparr>roles = [], personalized = False, current_role = None, edge_case = None\<rparr>
      | Some ov \<Rightarrow>
          (case select_roles (close ov) (oddball ov) g of
             Inl e \<Rightarrow> Inl e
           | Inr selected_roles \<Rightarrow>
               Inr \<lparr>roles = roles_with_distance (all_roles db) (slice_to selected_roles cnt),
                    personalized = True, current_role = Some canonical_role,
                    edge_case = None\<rparr>))"

definition calculate_overlaps_on_fly :: "role_database \<Rightarrow> metric_tuple \<Rightarrow> overlap_entry" where
  "calculate_overlaps_on_fly db role_metrics =
     (let distances = sort_key snd
            (map (\<lambda>other. (name other, calculate_distance role_metrics (metrics_of_role other)))
               (all_roles db));
          close_matches = map to_entry (slice_to distances CLOSE_MATCHES_COUNT);
          oddball_candidates = map to_entry (slice_from distances (- 10))
      in \<lparr>close = close_matches, oddball = slice_to oddball_candidates ODDBALL_COUNT\<rparr>)"

definition get_roles_from_metrics ::
  "role_database \<Rightarrow> metrics \<Rightarrow> string \<Rightarrow> int \<Rightarrow> rng \<Rightarrow> py_error + shown_role recommendation" where
  "get_roles_from_metrics db m cr cnt g =
     (let role_metrics_tuple =
            (metrics_get m ''technical'', metrics_get m ''creative'',
             metrics_get m ''business'', metrics_get m ''customer'');
          ov = calculate_overlaps_on_fly db role_metrics_tuple
      in case select_roles (close ov) (oddball ov) g of
           Inl e \<Rightarrow> Inl e
         | Inr selected_roles \<Rightarrow>
             Inr \<lparr>roles = roles_with_distance (all_roles db) (slice_to selected_roles cnt),
                  personalized = True, current_role = Some cr, edge_case = Some True\<rparr>)"

text \<open>The unpersonalized answer: a sample of the catalog records themselves.\<close>

definition random_roles :: "role_database \<Rightarrow> int \<Rightarrow> rng \<Rightarrow> py_error + shown_role recommendation" where
  "random_roles db cnt g =
     (case random_sample (all_roles db) (min cnt (int (length (all_roles db)))) g of
        Inl e \<Rightarrow> Inl e
      | Inr (roles_to_show, g1) \<Rightarrow>
          Inr \<lparr>roles = map (\<lambda>r. \<lparr>role_obj = r, distance = None\<rparr>) roles_to_show,
               personalized = False, current_role = None, edge_case = None\<rparr>)"

text \<open>
  \<^verbatim>\<open>get_personalized_roles\<close>.  The current role is a string or \<open>None\<close>, the
  metrics a dictionary or \<open>None\<close>; both are tested for truth as Python does, so the
  empty string and the empty dictionary count as absent.
\<close>

definition get_personalized_roles ::
  "role_database \<Rightarrow> string option \<Rightarrow> metrics option \<Rightarrow> int \<Rightarrow> rng
     \<Rightarrow> py_error + shown_role recommendation" where
  "get_personalized_roles db cur m cnt g =
     (case cur of
        None \<Rightarrow> random_roles db cnt g
      | Some cr \<Rightarrow>
          if cr = [] then random_roles db cnt g
          else let normalized = strip (lower cr) in
            if normalized \<in> dom (roles_normalized db)
            then get_roles_from_database db normalized cnt g
            else (case m of
                    None \<Rightarrow> random_roles db cnt g
                  | Some ms \<Rightarrow>
                      if ms \<noteq> [] then get_roles_from_metrics db ms cr cnt g
                      else random_roles db cnt g))"

text \<open>A role with no metric of its own, for examples.\<close>

definition plain_role :: "string \<Rightarrow> role" where
  "plain_role n =
     \<lparr>name = n, technical = None, creative = None, business = None, customer = None\<rparr>"

section \<open>The recommender over an object store\<close>

text \<open>
  Role dictionaries and lists of entries are mutable objects that the catalog, the
  overlaps and the answers share by reference.  Here they live in a store: an address is
  a position of the store and a new object is appended.  A role dictionary of the store
  is a role with its optional \<open>distance\<close> key.  Reading an address that holds no
  object of the expected kind gives \<open>None\<close> or the empty list; no reference of a
  well-formed store does.
\<close>

type_synonym addr = nat

datatype object = Role_dict shown_role | Entry_list "match_entry list"

type_synonym store = "object list"

definition dict_at :: "store \<Rightarrow> addr \<Rightarrow> shown_role option" where
  "dict_at h a =
     (if a < length h then (case h ! a of Role_dict d \<Rightarrow> Some d | Entry_list xs \<Rightarrow> None)
      else None)"

definition list_at :: "store \<Rightarrow> addr \<Rightarrow> match_entry list" where
  "list_at h a =
     (if a < length h then (case h ! a of Entry_list xs \<Rightarrow> xs | Role_dict d \<Rightarrow> [])
      else [])"

definition alloc :: "store \<Rightarrow> object \<Rightarrow> addr \<times> store" where
  "alloc h ob = (length h, h @ [ob])"

text \<open>
  The loaded database by reference: the list of all roles holds addresses of role
  dictionaries, an overlap entry the addresses of its two lists.
\<close>

record database_refs =
  all_roles_refs :: "addr list"
  normalized_index :: "string \<rightharpoonup> string"
  overlap_refs :: "string \<rightharpoonup> addr \<times> addr"

text \<open>
  \<^verbatim>\<open>next((r for r in all_roles if r['name'] == role_name), None)\<close>: the first
  catalog reference whose dictionary has that name, with the dictionary.
\<close>

definition find_role :: "store \<Rightarrow> addr list \<Rightarrow> string \<Rightarrow> (addr \<times> shown_role) option" where
  "find_role h refs role_name =
     (case find (\<lambda>a. map_option (\<lambda>d. name (role_obj d)) (dict_at h a) = Some role_name) refs of
        None \<Rightarrow> None
      | Some a \<Rightarrow> map_option (\<lambda>d. (a, d)) (dict_at h a))"

text \<open>
  The loop over the selected entries: \<^verbatim>\<open>role_obj.copy()\<close> allocates a new
  dictionary with the same keys, the assignment of \<open>distance\<close> updates the store at
  the address of the copy, and the copy is appended to the answer.
\<close>

fun roles_with_distance_st ::
  "addr list \<Rightarrow> match_entry list \<Rightarrow> store \<Rightarrow> addr list \<times> store" where
  "roles_with_distance_st refs [] h = ([], h)"
| "roles_with_distance_st refs (sel # sels) h =
     (case find_role h refs (entry_name sel) of
        None \<Rightarrow> roles_with_distance_st refs sels h
      | Some (a, d) \<Rightarrow>
          (let (role_with_distance, h1) = alloc h (Role_dict d);
               h2 = h1[role_with_distance := Role_dict (d\<lparr>distance := Some (entry_distance sel)\<rparr>)];
               (rest, h3) = roles_with_distance_st refs sels h2
           in (role_with_distance # rest, h3)))"

text \<open>
  \<^verbatim>\<open>random.sample\<close> returns a new list, \<^verbatim>\<open>+\<close> builds a new list, and
  \<^verbatim>\<open>random.shuffle\<close> changes the list it is given in place.
\<close>

definition select_roles_st ::
  "store \<Rightarrow> addr \<Rightarrow> addr \<Rightarrow> rng \<Rightarrow> py_error + addr \<times> store" where
  "select_roles_st h cl od g =
     (case random_sample (list_at h cl) (min CLOSE_MATCHES_COUNT (int (length (list_at h cl)))) g of
        Inl e \<Rightarrow> Inl e
      | Inr (sampled_close, g1) \<Rightarrow>
          (let (selected_close, h1) = alloc h (Entry_list sampled_close) in
           case random_sample (list_at h1 od)
                  (min ODDBALL_COUNT (int (length (list_at h1 od)))) g1 of
             Inl e \<Rightarrow> Inl e
           | Inr (sampled_oddball, g2) \<Rightarrow>
               (let (selected_oddball, h2) = alloc h1 (Entry_list sampled_oddball);
                    (selected_roles, h3) =
                       alloc h2 (Entry_list (list_at h2 selected_close @ list_at h2 selected_oddball));
                    h4 = h3[selected_roles :=
                              Entry_list (fst (random_shuffle (list_at h3 selected_roles) g2))]
                in Inr (selected_roles, h4))))"

definition get_roles_from_database_st ::
  "store \<Rightarrow> database_refs \<Rightarrow> string \<Rightarrow> int \<Rightarrow> rng
     \<Rightarrow> py_error + addr recommendation \<times> store" where
  "get_roles_from_database_st h db normalized_role cnt g =
     (let canonical_role = the (normalized_index db normalized_role) in
      case overlap_refs db canonical_role of
        None \<Rightarrow>
          Inr (\<lparr>roles = [], personalized = False, current_role = None, edge_case = None\<rparr>, h)
      | Some (cl, od) \<Rightarrow>
          (case select_roles_st h cl od g of
             Inl e \<Rightarrow> Inl e
           | Inr (selected_roles, h1) \<Rightarrow>
               (let (roles_to_show, h2) =
                      roles_with_distance_st (all_roles_refs db)
                        (slice_to (list_at h1 selected_roles) cnt) h1
                in Inr (\<lparr>roles = roles_to_show, personalized = True,
                         current_role = Some canonical_role, edge_case = None\<rparr>, h2))))"

text \<open>
  \<^verbatim>\<open>calculate_overlaps_on_fly\<close> reads the metrics of every catalog dictionary and
  builds its two lists anew.
\<close>

definition calculate_overlaps_on_fly_st ::
  "store \<Rightarrow> database_refs \<Rightarrow> metric_tuple \<Rightarrow> (addr \<times> addr) \<times> store" where
  "calculate_overlaps_on_fly_st h db role_metrics =
     (let distances = sort_key snd
            (map (\<lambda>other. (name (role_obj other),
                             calculate_distance role_metrics (metrics_of_role (role_obj other))))
               (List.map_filter (dict_at h) (all_roles_refs db)));
          (close_matches, h1) =
             alloc h (Entry_list (map to_entry (slice_to distances CLOSE_MATCHES_COUNT)));
          oddball_candidates = map to_entry (slice_from distances (- 10));
          (oddball_ref, h2) = alloc h1 (Entry_list (slice_to oddball_candidates ODDBALL_COUNT))
      in ((close_matches, oddball_ref), h2))"

definition get_roles_from_metrics_st ::
  "store \<Rightarrow> database_refs \<Rightarrow> metrics \<Rightarrow> string \<Rightarrow> int \<Rightarrow> rng
     \<Rightarrow> py_error + addr recommendation \<times> store" where
  "get_roles_from_metrics_st h db m cr cnt g =
     (let role_metrics_tuple =
            (metrics_get m ''technical'', metrics_get m ''creative'',
             metrics_get m ''business'', metrics_get m ''customer'');
          ((cl, od), h0) = calculate_overlaps_on_fly_st h db role_metrics_tuple
      in case select_roles_st h0 cl od g of
           Inl e \<Rightarrow> Inl e
         | Inr (selected_roles, h1) \<Rightarrow>
             (let (roles_to_show, h2) =
                    roles_with_distance_st (all_roles_refs db)
                      (slice_to (list_at h1 selected_roles) cnt) h1
              in Inr (\<lparr>roles = roles_to_show, personalized = True,
                       current_role = Some cr, edge_case = Some True\<rparr>, h2)))"

text \<open>The unpersonalized answer lists references to the catalog dictionaries themselves.\<close>

definition random_roles_st ::
  "store \<Rightarrow> database_refs \<Rightarrow> int \<Rightarrow> rng \<Rightarrow> py_error + addr recommendation \<times> store" where
  "random_roles_st h db cnt g =
     (case random_sample (all_roles_refs db)
             (min cnt (int (length (all_roles_refs db)))) g of
        Inl e \<Rightarrow> Inl e
      | Inr (roles_to_show, g1) \<Rightarrow>
          Inr (\<lparr>roles = roles_to_show, personalized = False, current_role = None,
                edge_case = None\<rparr>, h))"

definition get_personalized_roles_st ::
  "store \<Rightarrow> database_refs \<Rightarrow> string option \<Rightarrow> metrics option \<Rightarrow> int \<Rightarrow> rng
     \<Rightarrow> py_error + addr recommendation \<times> store" where
  "get_personalized_roles_st h db cur m cnt g =
     (case cur of
        None \<Rightarrow> random_roles_st h db cnt g
      | Some cr \<Rightarrow>
          if cr = [] then random_roles_st h db cnt g
          else let normalized = strip (lower cr) in
            if normalized \<in> dom (normalized_index db)
            then get_roles_from_database_st h db normalized cnt g
            else (case m of
                    None \<Rightarrow> random_roles_st h db cnt g
                  | Some ms \<Rightarrow>
                      if ms \<noteq> [] then get_roles_from_metrics_st h db ms cr cnt g
                      else random_roles_st h db cnt g))"

text \<open>
  A store is well formed for a database when every catalog reference holds a role
  dictionary without a \<open>distance\<close> key and every overlap reference holds a list.
  \<open>database_of\<close> reads the database of the value model off the store.
\<close>

definition wf_store :: "store \<Rightarrow> database_refs \<Rightarrow> bool" where
  "wf_store h db \<longleftrightarrow>
     (\<forall>a \<in> set (all_roles_refs db). \<exists>r. dict_at h a = Some \<lparr>role_obj = r, distance = None\<rparr>)
     \<and> (\<forall>k cl od. overlap_refs db k = Some (cl, od) \<longrightarrow>
           (\<exists>xs. cl < length h \<and> h ! cl = Entry_list xs)
           \<and> (\<exists>ys. od < length h \<and> h ! od = Entry_list ys))"

definition database_of :: "store \<Rightarrow> database_refs \<Rightarrow> role_database" where
  "database_of h db =
     \<lparr>all_roles = map role_obj (List.map_filter (dict_at h) (all_roles_refs db)),
      roles_normalized = normalized_index db,
      overlaps = (\<lambda>k. map_option (\<lambda>(cl, od). \<lparr>close = list_at h cl, oddball = list_at h od\<rparr>)
                         (overlap_refs db k))\<rparr>"

text \<open>The answer of the store model with its references read in the store it returns.\<close>

definition read_answer :: "store \<Rightarrow> addr recommendation \<Rightarrow> shown_role recommendation" where
  "read_answer h res =
     \<lparr>roles = List.map_filter (dict_at h) (roles res), personalized = personalized res,
      current_role = current_role res, edge_case = edge_case res\<rparr>"

text \<open>
  A small store: two catalog dictionaries at addresses 0 and 1, and at 2 and 3 the close
  and the oddball list of the first role, each holding the second.
\<close>

definition example_store :: store where
  "example_store =
     [Role_dict \<lparr>role_obj = plain_role ''Data Analyst'', distance = None\<rparr>,
      Role_dict \<lparr>role_obj = plain_role ''UX Designer'', distance = None\<rparr>,
      Entry_list [\<lparr>entry_name = ''UX Designer'', entry_distance = 0\<rparr>],
      Entry_list [\<lparr>entry_name = ''UX Designer'', entry_distance = 0\<rparr>]]"

definition example_refs :: database_refs where
  "example_refs =
     \<lparr>all_roles_refs = [0, 1],
      normalized_index = [''data analyst'' \<mapsto> ''Data Analyst''],
      overlap_refs = [''Data Analyst'' \<mapsto> (2, 3)]\<rparr>"

text \<open>
  The answer of the store model on the small store for the current role
  \<open>Data Analyst\<close>, and the store after the call: the three lists of the selection
  and the two copies with their distance follow the objects that were there.
\<close>

definition example_answer :: "addr recommendation" where
  "example_answer =
     \<lparr>roles = [7, 8], personalized = True, current_role = Some ''Data Analyst'',
      edge_case = None\<rparr>"

definition example_store_after :: store where
  "example_store_after =
     example_store @
       [Entry_list [\<lparr>entry_name = ''UX Designer'', entry_distance = 0\<rparr>],
        Entry_list [\<lparr>entry_name = ''UX Designer'', entry_distance = 0\<rparr>],
        Entry_list [\<lparr>entry_name = ''UX Designer'', entry_distance = 0\<rparr>,
                    \<lparr>entry_name = ''UX Designer'', entry_distance = 0\<rparr>],
        Role_dict \<lparr>role_obj = plain_role ''UX Designer'', distance = Some 0\<rparr>,
        Role_dict \<lparr>role_obj = plain_role ''UX Designer'', distance = Some 0\<rparr>]"

section \<open>The overlap entry in the words of the specification\<close>





text \<open>
  The pools of the on-the-fly path in the words of the specification, for a metric vector
  \<open>v\<close>: every catalog role, sorted by ascending distance from \<open>v\<close> under the same
  formula; \<open>close\<close> is the 20 nearest, \<open>oddball\<close> the first 7 of the 10 farthest.
\<close>

definition spec_vector_distance :: "metric_tuple \<Rightarrow> role \<Rightarrow> real" where
  "spec_vector_distance v other =
     (case v of (t, c, b, u) \<Rightarrow>
        sqrt (real_of_int ((t - get5 (technical other))\<^sup>2 + (c - get5 (creative other))\<^sup>2
                         + (b - get5 (business other))\<^sup>2 + (u - get5 (customer other))\<^sup>2)))"

definition spec_vector_entry :: "metric_tuple \<Rightarrow> role \<Rightarrow> match_entry" where
  "spec_vector_entry v other =
     \<lparr>entry_name = name other, entry_distance = spec_vector_distance v other\<rparr>"

definition spec_pools_on_fly :: "role list \<Rightarrow> metric_tuple \<Rightarrow> overlap_entry" where
  "spec_pools_on_fly rs v =
     (let sorted_roles = sort_key (spec_vector_distance v) rs
      in \<lparr>close = map (spec_vector_entry v) (take 20 sorted_roles),
          oddball = map (spec_vector_entry v)
            (take 7 (drop (length sorted_roles - 10) sorted_roles))\<rparr>)"

text \<open>
  The metric vector of a request in the words of the specification: the four metrics in
  the order technical, creative, business, customer, a metric that the request does not
  give counting as 5.
\<close>

definition spec_request_vector :: "metrics \<Rightarrow> metric_tuple" where
  "spec_request_vector ms =
     (case map_of ms ''technical'' of None \<Rightarrow> 5 | Some x \<Rightarrow> x,
      case map_of ms ''creative'' of None \<Rightarrow> 5 | Some x \<Rightarrow> x,
      case map_of ms ''business'' of None \<Rightarrow> 5 | Some x \<Rightarrow> x,
      case map_of ms ''customer'' of None \<Rightarrow> 5 | Some x \<Rightarrow> x)"

text \<open>
  The truncation of the specification: the first \<open>cnt\<close> entries, or, as a Python
  slice does for a negative \<open>cnt\<close>, all but the last \<open>- cnt\<close>.
\<close>

definition spec_truncate :: "'a list \<Rightarrow> int \<Rightarrow> 'a list" where
  "spec_truncate xs cnt =
     (if 0 \<le> cnt then take (nat cnt) xs else take (length xs - nat (- cnt)) xs)"

section \<open>Example catalogs\<close>

text \<open>Catalogs of sixteen and of twenty-four roles without metrics.\<close>

definition catalog16 :: "role list" where
  "catalog16 = map plain_role
     [''R01'', ''R02'', ''R03'', ''R04'', ''R05'', ''R06'', ''R07'', ''R08'',
        ''R09'', ''R10'', ''R11'', ''R12'', ''R13'', ''R14'', ''R15'', ''R16'']"

definition catalog24 :: "role list" where
  "catalog24 = map plain_role
     [''R01'', ''R02'', ''R03'', ''R04'', ''R05'', ''R06'', ''R07'', ''R08'',
        ''R09'', ''R10'', ''R11'', ''R12'', ''R13'', ''R14'', ''R15'', ''R16'',
        ''R17'', ''R18'', ''R19'', ''R20'', ''R21'', ''R22'', ''R23'', ''R24'']"

text \<open>A catalog of three roles with metrics of their own.\<close>

definition catalog3 :: "role list" where
  "catalog3 =
     [\<lparr>name = ''UX Designer'', technical = Some 5, creative = Some 9,
       business = Some 4, customer = Some 7\<rparr>,
      \<lparr>name = ''Backend Developer'', technical = Some 9, creative = Some 3,
       business = Some 3, customer = Some 2\<rparr>,
      \<lparr>name = ''Sales Engineer'', technical = Some 6, creative = Some 4,
       business = Some 7, customer = Some 8\<rparr>]"

section \<open>Close matches of a name\<close>

text \<open>
  \<^verbatim>\<open>difflib.get_close_matches\<close> of the Python standard library, as the industry
  route calls it: \<^verbatim>\<open>SequenceMatcher\<close> without a junk predicate and with
  \<^verbatim>\<open>autojunk\<close> on, the candidate as the first sequence \<open>a\<close> and the word as the
  second sequence \<open>b\<close>.

  \<open>b2j b elt\<close> is the entry of the index \<^verbatim>\<open>b2j\<close> for the element \<open>elt\<close>: the
  positions of \<open>elt\<close> in \<open>b\<close> in increasing order, or nothing once \<open>b\<close> has
  200 elements or more and \<open>elt\<close> occurs more than \<^verbatim>\<open>n // 100 + 1\<close> times.
\<close>

definition b2j :: "string \<Rightarrow> char \<Rightarrow> nat list" where
  "b2j b elt =
     (let indices = filter (\<lambda>j. b ! j = elt) [0..<length b]; n = length b
      in if 200 \<le> n \<and> n div 100 + 1 < length indices then [] else indices)"

text \<open>
  \<^verbatim>\<open>find_longest_match\<close>.  A match is the triple \<open>(i, j, k)\<close> with
  \<^verbatim>\<open>a[i:i+k] == b[j:j+k]\<close>.  \<open>inner_loop\<close> is the loop over the positions
  \<open>j\<close> of \<^verbatim>\<open>a[i]\<close> in \<open>b\<close>, with \<^verbatim>\<open>continue\<close> below \<open>blo\<close> and
  \<^verbatim>\<open>break\<close> from \<open>bhi\<close> on; the dictionaries \<^verbatim>\<open>j2len\<close> and
  \<^verbatim>\<open>newj2len\<close> are functions that answer 0 on an absent key.  \<open>outer_step\<close>
  is one round of the loop over \<open>i\<close>.  With no junk only the first two of the four
  extension loops can run: \<open>extend_left\<close> and \<open>extend_right\<close>.
\<close>

type_synonym match = "nat \<times> nat \<times> nat"

fun inner_loop ::
  "nat \<Rightarrow> nat \<Rightarrow> nat \<Rightarrow> (nat \<Rightarrow> nat) \<Rightarrow> nat list \<Rightarrow> (nat \<Rightarrow> nat) \<times> match
     \<Rightarrow> (nat \<Rightarrow> nat) \<times> match" where
  "inner_loop blo bhi i j2len [] st = st"
| "inner_loop blo bhi i j2len (j # js) (newj2len, besti, bestj, bestsize) =
     (if j < blo then inner_loop blo bhi i j2len js (newj2len, besti, bestj, bestsize)
      else if bhi \<le> j then (newj2len, besti, bestj, bestsize)
      else let k = (if j = 0 then 0 else j2len (j - 1)) + 1 in
           if bestsize < k
           then inner_loop blo bhi i j2len js (newj2len(j := k), i + 1 - k, j + 1 - k, k)
           else inner_loop blo bhi i j2len js (newj2len(j := k), besti, bestj, bestsize))"

definition outer_step ::
  "string \<Rightarrow> string \<Rightarrow> nat \<Rightarrow> nat \<Rightarrow> nat \<Rightarrow> (nat \<Rightarrow> nat) \<times> match \<Rightarrow> (nat \<Rightarrow> nat) \<times> match" where
  "outer_step a b blo bhi i st =
     inner_loop blo bhi i (fst st) (b2j b (a ! i)) (\<lambda>j. 0, snd st)"

fun extend_left :: "string \<Rightarrow> string \<Rightarrow> nat \<Rightarrow> nat \<Rightarrow> match \<Rightarrow> match" where
  "extend_left a b alo blo (besti, bestj, bestsize) =
     (if alo < besti \<and> blo < bestj \<and> a ! (besti - 1) = b ! (bestj - 1)
      then extend_left a b alo blo (besti - 1, bestj - 1, bestsize + 1)
      else (besti, bestj, bestsize))"

function extend_right :: "string \<Rightarrow> string \<Rightarrow> nat \<Rightarrow> nat \<Rightarrow> match \<Rightarrow> match" where
  "extend_right a b ahi bhi (besti, bestj, bestsize) =
     (if besti + bestsize < ahi \<and> bestj + bestsize < bhi
         \<and> a ! (besti + bestsize) = b ! (bestj + bestsize)
      then extend_right a b ahi bhi (besti, bestj, bestsize + 1)
      else (besti, bestj, bestsize))"
  by pat_completeness auto
termination
  by (relation "measure (\<lambda>(a, b, ahi, bhi, besti, bestj, bestsize). ahi - (besti + bestsize))")
    auto

definition find_longest_match :: "string \<Rightarrow> string \<Rightarrow> nat \<Rightarrow> nat \<Rightarrow> nat \<Rightarrow> nat \<Rightarrow> match" where
  "find_longest_match a b alo ahi blo bhi =
     extend_right a b ahi bhi
       (extend_left a b alo blo
          (snd (fold (outer_step a b blo bhi) [alo..<ahi] (\<lambda>j. 0, alo, blo, 0))))"

text \<open>
  \<^verbatim>\<open>get_matching_blocks\<close>.  \<open>matching_blocks a b alo ahi blo bhi\<close> is what the
  queue loop appends to the list \<^verbatim>\<open>matching_blocks\<close> for the window popped from
  the queue and for all the windows it pushes in turn: the queue is a stack, so the window
  to the right of a match is worked off before the window to its left.  Its termination
  is proved further down, from the bounds of \<open>find_longest_match\<close>.  The list is then
  sorted, adjacent blocks are merged by the loop \<open>non_adjacent\<close>, and the sentinel
  \<^verbatim>\<open>(la, lb, 0)\<close> is appended.
\<close>

function matching_blocks :: "string \<Rightarrow> string \<Rightarrow> nat \<Rightarrow> nat \<Rightarrow> nat \<Rightarrow> nat \<Rightarrow> match list" where
  "matching_blocks a b alo ahi blo bhi =
     (case find_longest_match a b alo ahi blo bhi of
        (i, j, k) \<Rightarrow>
          if k = 0 then []
          else (i, j, k)
               # (if i + k < ahi \<and> j + k < bhi then matching_blocks a b (i + k) ahi (j + k) bhi
                  else [])
               @ (if alo < i \<and> blo < j then matching_blocks a b alo i blo j else []))"
  by pat_completeness auto

fun non_adjacent :: "match \<Rightarrow> match list \<Rightarrow> match list" where
  "non_adjacent (i1, j1, k1) [] = (if k1 \<noteq> 0 then [(i1, j1, k1)] else [])"
| "non_adjacent (i1, j1, k1) ((i2, j2, k2) # rest) =
     (if i1 + k1 = i2 \<and> j1 + k1 = j2 then non_adjacent (i1, j1, k1 + k2) rest
      else (if k1 \<noteq> 0 then [(i1, j1, k1)] else []) @ non_adjacent (i2, j2, k2) rest)"

definition get_matching_blocks :: "string \<Rightarrow> string \<Rightarrow> match list" where
  "get_matching_blocks a b =
     non_adjacent (0, 0, 0) (sort (matching_blocks a b 0 (length a) 0 (length b)))
       @ [(length a, length b, 0)]"

text \<open>
  The three ratios.  \<^verbatim>\<open>_calculate_ratio\<close> is \<^verbatim>\<open>2.0 * matches / length\<close>, taken
  here as an exact rational number; the float of the source is that number rounded.  Two
  such ratios over lengths \<open>l\<close> and \<open>l'\<close> differ by at least \<open>1 / (l * l')\<close>
  when they differ, and a ratio other than \<open>17 / 20\<close> differs from it by at least
  \<open>1 / (20 * l)\<close>, so for names of less than \<open>2 ^ 24\<close> characters the comparisons of
  the floats come out as those of the rationals.

  \<open>quick_step\<close> is the body of the loop of \<^verbatim>\<open>quick_ratio\<close>: \<open>avail\<close> is the
  dictionary of the counts still available, \<^verbatim>\<open>fullbcount.get(elt, 0)\<close> is the number
  of occurrences of \<open>elt\<close> in \<open>b\<close>.
\<close>

definition calculate_ratio :: "nat \<Rightarrow> nat \<Rightarrow> rat" where
  "calculate_ratio matches len = (if len \<noteq> 0 then 2 * of_nat matches / of_nat len else 1)"

definition ratio :: "string \<Rightarrow> string \<Rightarrow> rat" where
  "ratio a b =
     calculate_ratio (sum_list (map (\<lambda>triple. snd (snd triple)) (get_matching_blocks a b)))
       (length a + length b)"

definition quick_step :: "string \<Rightarrow> char \<Rightarrow> (char \<rightharpoonup> int) \<times> nat \<Rightarrow> (char \<rightharpoonup> int) \<times> nat" where
  "quick_step b elt st =
     (case st of (avail, matches) \<Rightarrow>
        let numb = (case avail elt of Some n \<Rightarrow> n | None \<Rightarrow> int (count_list b elt))
        in (avail(elt \<mapsto> numb - 1), if 0 < numb then matches + 1 else matches))"

definition quick_ratio :: "string \<Rightarrow> string \<Rightarrow> rat" where
  "quick_ratio a b =
     calculate_ratio (snd (fold (quick_step b) a (Map.empty, 0))) (length a + length b)"

definition real_quick_ratio :: "string \<Rightarrow> string \<Rightarrow> rat" where
  "real_quick_ratio a b = calculate_ratio (min (length a) (length b)) (length a + length b)"

text \<open>
  \<^verbatim>\<open>heapq.nlargest(1, result)\<close> is \<^verbatim>\<open>max(result)\<close> when there is a result: the
  first of the greatest (score, name) pairs, pairs being compared by score and then by
  name, names in the order of their character codes.
\<close>

fun str_less :: "string \<Rightarrow> string \<Rightarrow> bool" where
  "str_less [] [] = False"
| "str_less [] (y # ys) = True"
| "str_less (x # xs) [] = False"
| "str_less (x # xs) (y # ys) =
     ((of_char x :: nat) < of_char y \<or> (x = y \<and> str_less xs ys))"

definition tuple_less :: "rat \<times> string \<Rightarrow> rat \<times> string \<Rightarrow> bool" where
  "tuple_less p q = (fst p < fst q \<or> (fst p = fst q \<and> str_less (snd p) (snd q)))"

definition nlargest1 :: "(rat \<times> string) list \<Rightarrow> (rat \<times> string) list" where
  "nlargest1 result =
     (case result of
        [] \<Rightarrow> []
      | e # es \<Rightarrow> [fold (\<lambda>x best. if tuple_less best x then x else best) es e])"

text \<open>
  \<^verbatim>\<open>get_close_matches(word, possibilities, n=1, cutoff)\<close>: the candidates that pass
  the three tests, cheapest first, are scored; the best one is returned, in a list.
\<close>

definition get_close_matches :: "string \<Rightarrow> string list \<Rightarrow> rat \<Rightarrow> py_error + string list" where
  "get_close_matches word possibilities cutoff =
     (if \<not> (0 \<le> cutoff \<and> cutoff \<le> 1) then Inl ValueError
      else Inr (map snd (nlargest1
             (map (\<lambda>x. (ratio x word, x))
                (filter (\<lambda>x. cutoff \<le> real_quick_ratio x word \<and> cutoff \<le> quick_ratio x word
                              \<and> cutoff \<le> ratio x word) possibilities)))))"

text \<open>
  Two predicates for the proofs about \<open>find_longest_match\<close>: a match lies in its
  window and its two pieces are equal; every length noted in a row of \<^verbatim>\<open>j2len\<close>
  after \<open>n\<close> rounds is that of a common piece that ends at the current positions.
\<close>

definition sound :: "string \<Rightarrow> string \<Rightarrow> nat \<Rightarrow> nat \<Rightarrow> nat \<Rightarrow> nat \<Rightarrow> match \<Rightarrow> bool" where
  "sound a b alo ahi blo bhi m =
     (case m of (i, j, k) \<Rightarrow>
        alo \<le> i \<and> i + k \<le> ahi \<and> blo \<le> j \<and> j + k \<le> bhi
        \<and> (\<forall>t < k. a ! (i + t) = b ! (j + t)))"

definition row_ok :: "string \<Rightarrow> string \<Rightarrow> nat \<Rightarrow> nat \<Rightarrow> nat \<Rightarrow> nat \<Rightarrow> (nat \<Rightarrow> nat) \<Rightarrow> bool" where
  "row_ok a b alo blo bhi n m =
     (\<forall>j. m j \<noteq> 0 \<longrightarrow>
        m j \<le> n \<and> m j \<le> j + 1 - blo \<and> blo \<le> j \<and> j < bhi
        \<and> (\<forall>t < m j. a ! (alo + n - m j + t) = b ! (j + 1 - m j + t)))"

section \<open>The industry route\<close>

text \<open>
  \<^verbatim>\<open>db.roles_normalized.keys()\<close>: the keys of the dictionary that
  \<^verbatim>\<open>_load_normalized\<close> builds, in the order of their first insertion.
\<close>

definition dict_keys :: "role list \<Rightarrow> string list" where
  "dict_keys data_roles =
     rev (remdups (rev (map (\<lambda>role_obj. normalize (name role_obj)) data_roles)))"

text \<open>
  The answers of \<^verbatim>\<open>infer_industry\<close>.  \<open>Error_response\<close> carries the message and
  the HTTP status; \<open>Server_error\<close> is the answer of the \<^verbatim>\<open>except\<close> clause, status
  500 with the text of the exception; \<open>Ai_inference\<close> is layer 3, the question
  handed on to the language model, whose answer is outside this development.  The four
  metrics of an answer are read with \<^verbatim>\<open>role_obj.get(key, 5)\<close>.
\<close>

record industry_answer =
  answer_role :: string
  industry :: string
  confidence :: rat
  source :: string
  original_input :: "string option"
  answer_metrics :: metric_tuple

datatype response =
    Error_response string nat
  | Server_error py_error
  | Json_answer industry_answer
  | Ai_inference string

definition answer :: "role \<Rightarrow> rat \<Rightarrow> string \<Rightarrow> string option \<Rightarrow> industry_answer" where
  "answer r conf src orig =
     \<lparr>answer_role = name r, industry = ''Technology'', confidence = conf,
      source = src, original_input = orig, answer_metrics = metrics_of_role r\<rparr>"

text \<open>
  \<^verbatim>\<open>infer_industry\<close> on a database loaded from the roles \<open>data_roles\<close>; the
  request body is the value of its \<open>role\<close> field, \<open>None\<close> when the field or the body
  is missing.  Layer 1 is the exact match, layer 2 the close match at cutoff 0.85; each
  falls through to the next layer when it finds nothing.
\<close>

definition layer2 :: "role list \<Rightarrow> string \<Rightarrow> string \<Rightarrow> response" where
  "layer2 data_roles role_in normalized =
     (case get_close_matches normalized (dict_keys data_roles) (17 / 20) of
        Inl e \<Rightarrow> Server_error e
      | Inr fuzzy_matches \<Rightarrow>
          (case fuzzy_matches of
             [] \<Rightarrow> Ai_inference role_in
           | key # _ \<Rightarrow>
               (case role_map data_roles key of
                  None \<Rightarrow> Server_error KeyError
                | Some matched_role \<Rightarrow>
                    (case find (\<lambda>r. name r = matched_role) data_roles of
                       None \<Rightarrow> Ai_inference role_in
                     | Some found \<Rightarrow>
                         Json_answer (answer found (19 / 20) ''fuzzy_match'' (Some role_in))))))"

definition infer_industry :: "role list \<Rightarrow> string option \<Rightarrow> response" where
  "infer_industry data_roles data =
     (case data of
        None \<Rightarrow> Error_response ''Missing required field: role'' 400
      | Some role_in \<Rightarrow>
          let normalized = normalize role_in in
          if length normalized < 2 then Error_response ''Role name too short'' 400
          else if 100 < length normalized then Error_response ''Role name too long'' 400
          else (case role_map data_roles normalized of
                  None \<Rightarrow> layer2 data_roles role_in normalized
                | Some canonical_role \<Rightarrow>
                    (case find (\<lambda>r. name r = canonical_role) data_roles of
                       None \<Rightarrow> layer2 data_roles role_in normalized
                     | Some found \<Rightarrow> Json_answer (answer found 1 ''database'' None))))"

text \<open>A small catalog of technology roles, for examples.\<close>

definition tech_catalog :: "role list" where
  "tech_catalog =
     [\<lparr>name = ''Software Engineer'', technical = Some 9, creative = Some 5,
       business = Some 4, customer = Some 3\<rparr>,
      \<lparr>name = ''UX Designer'', technical = Some 5, creative = Some 9,
       business = Some 4, customer = Some 7\<rparr>,
      \<lparr>name = ''Data Scientist'', technical = Some 9, creative = Some 6,
       business = Some 6, customer = None\<rparr>,
      \<lparr>name = ''Product Manager'', technical = Some 5, creative = Some 6,
       business = Some 9, customer = Some 8\<rparr>]"

section \<open>Sampling and shuffling\<close>

text \<open>
  A sample is a sub-multiset of its population of the requested size, and a shuffle is
  a permutation, whatever the random source draws.
\<close>

lemma randbelow_less: "0 < n \<Longrightarrow> fst (randbelow n g) < n"
  by (simp add: randbelow_def split: list.splits)

lemma mset_pool_step:
  assumes "j < length pool"
  shows "add_mset (pool ! j) (mset (butlast (pool[j := last pool]))) = mset pool"
proof (cases pool rule: rev_cases)
  case Nil
  with assms show ?thesis by simp
next
  case (snoc xs l)
  show ?thesis
  proof (cases "j < length xs")
    case True
    then have "butlast (pool[j := last pool]) = xs[j := l]"
      using snoc by (simp add: list_update_append)
    moreover have "pool ! j = xs ! j"
      using True snoc by (simp add: nth_append)
    moreover have "xs ! j \<in># mset xs"
      using True by simp
    ultimately show ?thesis
      using True snoc by (simp add: mset_update)
  next
    case False
    with assms snoc have "j = length xs" by simp
    then show ?thesis using snoc by simp
  qed
qed

lemma length_pool_step:
  "j < length pool \<Longrightarrow> length (butlast (pool[j := last pool])) = length pool - 1"
  by simp

lemma sample_pool_props:
  "k \<le> length pool \<Longrightarrow>
     length (fst (sample_pool pool k g)) = k \<and> mset (fst (sample_pool pool k g)) \<subseteq># mset pool"
proof (induction k arbitrary: pool g)
  case 0
  then show ?case by simp
next
  case (Suc k)
  obtain j g1 where r: "randbelow (length pool) g = (j, g1)" by force
  from Suc.prems have pos: "0 < length pool" by auto
  from randbelow_less [OF pos, of g] r have j: "j < length pool" by simp
  let ?pool' = "butlast (pool[j := last pool])"
  obtain rest g2 where s: "sample_pool ?pool' k g1 = (rest, g2)" by force
  have "k \<le> length ?pool'" using Suc.prems j by simp
  from Suc.IH [OF this, of g1] s
  have ih: "length rest = k" "mset rest \<subseteq># mset ?pool'" by simp_all
  have "add_mset (pool ! j) (mset rest) \<subseteq># add_mset (pool ! j) (mset ?pool')"
    using ih(2) by simp
  then have "add_mset (pool ! j) (mset rest) \<subseteq># mset pool"
    by (simp only: mset_pool_step [OF j])
  then show ?case using r s ih(1) by simp
qed

lemma shuffle_loop_mset:
  "i < length x \<Longrightarrow> mset (fst (shuffle_loop i x g)) = mset x"
proof (induction i arbitrary: x g)
  case 0
  then show ?case by simp
next
  case (Suc i)
  obtain j g1 where r: "randbelow (Suc i + 1) g = (j, g1)" by force
  from randbelow_less [of "Suc i + 1" g] r have j: "j < Suc i + 1" by simp
  let ?x' = "x[Suc i := x ! j, j := x ! Suc i]"
  have len: "i < length ?x'" using Suc.prems by simp
  have "mset ?x' = mset x"
    using Suc.prems j by (intro mset_swap) simp_all
  with Suc.IH [OF len, of g1] r show ?case by simp
qed

lemma random_shuffle_mset: "mset (fst (random_shuffle x g)) = mset x"
proof (cases x)
  case Nil
  then show ?thesis by (simp add: random_shuffle_def)
next
  case (Cons a as)
  then show ?thesis by (simp add: random_shuffle_def shuffle_loop_mset)
qed

lemma random_sample_ok:
  assumes "0 \<le> k" "k \<le> int (length xs)"
  shows "\<exists>ys g'. random_sample xs k g = Inr (ys, g') \<and> length ys = nat k \<and> mset ys \<subseteq># mset xs"
proof -
  have "nat k \<le> length xs" using assms by simp
  from sample_pool_props [OF this, of g] assms show ?thesis
    by (cases "sample_pool xs (nat k) g") (simp add: random_sample_def)
qed

lemma distinct_submset:
  assumes "mset ys \<subseteq># mset xs" "distinct xs"
  shows "distinct ys"
proof -
  have "count (mset ys) a = (if a \<in> set ys then 1 else 0)" for a
  proof (cases "a \<in> set ys")
    case True
    then have "1 \<le> count (mset ys) a" by (simp add: Suc_le_eq)
    moreover have "count (mset ys) a \<le> count (mset xs) a"
      using assms(1) by (rule mset_subset_eq_count)
    moreover have "count (mset xs) a \<le> 1"
      using assms(2) by (simp add: distinct_count_atmost_1)
    ultimately have "count (mset ys) a = 1" by linarith
    then show ?thesis using True by simp
  next
    case False
    then show ?thesis by (simp add: count_mset_0_iff)
  qed
  then show ?thesis by (simp only: distinct_count_atmost_1) simp
qed

lemma distinct_map_submset:
  assumes "mset ys \<subseteq># mset xs" "distinct (map f xs)"
  shows "distinct (map f ys)"
proof -
  have "mset (map f ys) \<subseteq># mset (map f xs)"
    using assms(1) by (simp add: image_mset_subseteq_mono)
  then show ?thesis using assms(2) by (rule distinct_submset)
qed

section \<open>Slices, pools and dictionaries\<close>

lemma slice_to_nat: "0 \<le> c \<Longrightarrow> slice_to xs c = take (nat c) xs"
  by (simp add: slice_to_def)

lemma set_slice_to: "set (slice_to xs c) \<subseteq> set xs"
  by (auto simp: slice_to_def dest: in_set_takeD)

lemma length_slice_to: "length (slice_to xs c) \<le> length xs"
  by (simp add: slice_to_def)

lemma set_slice_from: "set (slice_from xs i) \<subseteq> set xs"
  by (auto simp: slice_from_def dest: in_set_dropD)

lemma overlap_of_eq:
  "overlap_of rs r =
     \<lparr>close = map to_entry (take 15 (sort_key snd (distances_of rs r))),
      oddball = map to_entry
        (take 5 (drop (length (distances_of rs r) - 8) (sort_key snd (distances_of rs r))))\<rparr>"
  by (simp add: overlap_of_def slice_to_def slice_from_def CLOSE_POOL_SIZE_def
      ODDBALL_POOL_SIZE_def oddball_pool_def Let_def take_map drop_map)

lemma on_fly_eq:
  "calculate_overlaps_on_fly db mt =
     (let ds = sort_key snd
            (map (\<lambda>other. (name other, calculate_distance mt (metrics_of_role other)))
               (all_roles db))
      in \<lparr>close = map to_entry (take 20 ds),
          oddball = map to_entry (take 7 (drop (length ds - 10) ds))\<rparr>)"
  by (simp add: calculate_overlaps_on_fly_def slice_to_def slice_from_def CLOSE_MATCHES_COUNT_def
      ODDBALL_COUNT_def Let_def take_map drop_map)

lemma select_roles_ok:
  "\<exists>sel. select_roles cl od g = Inr sel
     \<and> mset sel \<subseteq># mset cl + mset od
     \<and> length sel = min 20 (length cl) + min 7 (length od)"
proof -
  let ?kc = "min CLOSE_MATCHES_COUNT (int (length cl))"
  let ?ko = "min ODDBALL_COUNT (int (length od))"
  have kc: "0 \<le> ?kc" "?kc \<le> int (length cl)" by (simp_all add: CLOSE_MATCHES_COUNT_def)
  have ko: "0 \<le> ?ko" "?ko \<le> int (length od)" by (simp_all add: ODDBALL_COUNT_def)
  from random_sample_ok [OF kc, of g]
  obtain sc g1 where sc: "random_sample cl ?kc g = Inr (sc, g1)" "length sc = nat ?kc"
    "mset sc \<subseteq># mset cl" by blast
  from random_sample_ok [OF ko, of g1]
  obtain so g2 where so: "random_sample od ?ko g1 = Inr (so, g2)" "length so = nat ?ko"
    "mset so \<subseteq># mset od" by blast
  let ?sel = "fst (random_shuffle (sc @ so) g2)"
  have sel: "select_roles cl od g = Inr ?sel"
    using sc(1) so(1) by (simp add: select_roles_def)
  have m: "mset ?sel = mset sc + mset so" by (simp add: random_shuffle_mset)
  then have "mset ?sel \<subseteq># mset cl + mset od"
    using sc(3) so(3) by (simp add: subset_mset.add_mono)
  moreover have "length ?sel = length sc + length so"
    using m by (metis length_append mset_append size_mset)
  moreover have "nat ?kc = min 20 (length cl)" by (simp add: CLOSE_MATCHES_COUNT_def)
  moreover have "nat ?ko = min 7 (length od)" by (simp add: ODDBALL_COUNT_def)
  ultimately show ?thesis using sel sc(2) so(2) by simp
qed

lemma find_SomeD: "find P xs = Some x \<Longrightarrow> x \<in> set xs \<and> P x"
  by (induction xs) (auto split: if_splits)

lemma roles_with_distance_length:
  "length (roles_with_distance rs sels) \<le> length sels"
  by (induction sels) (auto split: option.splits)

lemma roles_with_distance_elem:
  "s \<in> set (roles_with_distance rs sels) \<Longrightarrow>
     \<exists>sel \<in> set sels. role_obj s \<in> set rs \<and> name (role_obj s) = entry_name sel
        \<and> distance s = Some (entry_distance sel)"
proof (induction sels)
  case Nil
  then show ?case by simp
next
  case (Cons sel sels)
  show ?case
  proof (cases "find (\<lambda>r. name r = entry_name sel) rs")
    case None
    with Cons show ?thesis by auto
  next
    case (Some r)
    then have "r \<in> set rs" "name r = entry_name sel"
      by (auto dest: find_SomeD)
    with Cons Some show ?thesis by auto
  qed
qed

lemma fold_update_lookup:
  "fold (\<lambda>r m. m(K r \<mapsto> F r)) xs m0 k =
     (case find (\<lambda>r. K r = k) (rev xs) of None \<Rightarrow> m0 k | Some r \<Rightarrow> Some (F r))"
  by (induction xs rule: rev_induct) simp_all

lemma find_distinct_key:
  "distinct (map K xs) \<Longrightarrow> r \<in> set xs \<Longrightarrow> find (\<lambda>x. K x = K r) xs = Some r"
  by (induction xs) (auto simp: image_iff)

lemma overlaps_lookup:
  "calculate_overlaps rs k =
     (case find (\<lambda>r. name r = k) (rev rs) of None \<Rightarrow> None | Some r \<Rightarrow> Some (overlap_of rs r))"
  by (simp add: calculate_overlaps_def fold_update_lookup)

lemma overlaps_distinct:
  assumes "distinct (map name rs)" "r \<in> set rs"
  shows "calculate_overlaps rs (name r) = Some (overlap_of rs r)"
proof -
  have "distinct (map name (rev rs))" using assms(1) by (simp add: rev_map [symmetric])
  moreover have "r \<in> set (rev rs)" using assms(2) by simp
  ultimately have "find (\<lambda>x. name x = name r) (rev rs) = Some r" by (rule find_distinct_key)
  then show ?thesis by (simp add: overlaps_lookup)
qed

lemma role_map_lookup:
  "role_map rs k =
     (case find (\<lambda>r. normalize (name r) = k) (rev rs) of None \<Rightarrow> None | Some r \<Rightarrow> Some (name r))"
  by (simp add: role_map_def fold_update_lookup)

lemma overlap_of_entries:
  assumes "e \<in> set (close (overlap_of rs r)) \<union> set (oddball (overlap_of rs r))"
  shows "\<exists>other \<in> set rs. name other \<noteq> name r \<and> entry_name e = name other
           \<and> entry_distance e = calculate_distance (metrics_of_role r) (metrics_of_role other)"
proof -
  let ?ds = "sort_key snd (distances_of rs r)"
  from assms have "e \<in> to_entry ` set ?ds"
    by (auto simp: overlap_of_eq dest!: in_set_takeD in_set_dropD)
  then obtain d where "d \<in> set (distances_of rs r)" "e = to_entry d" by auto
  then show ?thesis by (auto simp: distances_of_def to_entry_def)
qed

lemma selected_from_pools:
  assumes "select_roles cl od g = Inr sel" "e \<in> set (slice_to sel cnt)"
  shows "e \<in> set cl \<union> set od"
proof -
  from select_roles_ok [of cl od g] assms(1) have "mset sel \<subseteq># mset cl + mset od" by auto
  then have "set sel \<subseteq> set cl \<union> set od"
    by (metis set_mset_mono set_mset_mset set_mset_union)
  with assms(2) set_slice_to [of sel cnt] show ?thesis by blast
qed

section \<open>The unpersonalized path\<close>

lemma random_roles_ok:
  assumes "0 \<le> cnt"
  shows "\<exists>res. random_roles db cnt g = Inr res \<and> \<not> personalized res
           \<and> current_role res = None \<and> edge_case res = None
           \<and> length (roles res) = min (nat cnt) (length (all_roles db))
           \<and> mset (map role_obj (roles res)) \<subseteq># mset (all_roles db)
           \<and> (\<forall>s \<in> set (roles res). distance s = None)"
proof -
  let ?k = "min cnt (int (length (all_roles db)))"
  have "0 \<le> ?k" "?k \<le> int (length (all_roles db))" using assms by simp_all
  from random_sample_ok [OF this, of g]
  obtain ys g' where s: "random_sample (all_roles db) ?k g = Inr (ys, g')"
    and l: "length ys = nat ?k" and m: "mset ys \<subseteq># mset (all_roles db)" by blast
  have "nat ?k = min (nat cnt) (length (all_roles db))" using assms by linarith
  then show ?thesis
    using s l m by (simp add: random_roles_def multiset.map_comp comp_def)
qed

text \<open>
  C7.  With no current role and no metrics, and a count that is not negative, the answer
  is not personalized and holds min(count, N) roles of the catalog, each taken at most
  as often as the catalog holds it and none with a distance; when the catalog names are
  pairwise distinct, so are the names of the answer.
\<close>

theorem unpersonalized_sample:
  assumes "distinct (map name rs)" and "0 \<le> cnt"
  shows "\<exists>res. get_personalized_roles (loaded rs) None None cnt g = Inr res
           \<and> \<not> personalized res
           \<and> length (roles res) = min (nat cnt) (length rs)
           \<and> mset (map role_obj (roles res)) \<subseteq># mset rs
           \<and> distinct (map (\<lambda>s. name (role_obj s)) (roles res))
           \<and> (\<forall>s \<in> set (roles res). distance s = None)"
proof -
  from random_roles_ok [OF assms(2), of "loaded rs" g]
  obtain res where r: "random_roles (loaded rs) cnt g = Inr res" "\<not> personalized res"
    "length (roles res) = min (nat cnt) (length rs)"
    "mset (map role_obj (roles res)) \<subseteq># mset rs"
    "\<forall>s \<in> set (roles res). distance s = None"
    by (auto simp: loaded_def)
  from distinct_map_submset [OF r(4) assms(1)]
  have "distinct (map (\<lambda>s. name (role_obj s)) (roles res))" by (simp add: comp_def)
  with r show ?thesis by (simp add: get_personalized_roles_def)
qed

theorem unpersonalized_sample_witness:
  "distinct (map name [\<lparr>name = ''Data Analyst'', technical = Some 7, creative = Some 4,
                         business = Some 6, customer = Some 3\<rparr>,
                       \<lparr>name = ''UX Designer'', technical = Some 4, creative = Some 9,
                         business = Some 5, customer = Some 7\<rparr>])
   \<and> (0::int) \<le> 27
   \<and> (\<exists>res. get_personalized_roles
               (loaded [\<lparr>name = ''Data Analyst'', technical = Some 7, creative = Some 4,
                          business = Some 6, customer = Some 3\<rparr>,
                        \<lparr>name = ''UX Designer'', technical = Some 4, creative = Some 9,
                          business = Some 5, customer = Some 7\<rparr>]) None None 27 [1, 0]
             = Inr res
           \<and> \<not> personalized res \<and> length (roles res) = 2
           \<and> distinct (map (\<lambda>s. name (role_obj s)) (roles res)))"
  using unpersonalized_sample
    [of "[\<lparr>name = ''Data Analyst'', technical = Some 7, creative = Some 4,
            business = Some 6, customer = Some 3\<rparr>,
          \<lparr>name = ''UX Designer'', technical = Some 4, creative = Some 9,
            business = Some 5, customer = Some 7\<rparr>]" 27 "[1, 0]"]
  by auto

text \<open>
  C10.  The empty string is treated as an absent current role: the call is the
  unpersonalized call, whatever metrics come with it, and for a count that is not
  negative its answer is not personalized and has no \<open>current_role\<close> key.
\<close>

theorem empty_role_unpersonalized:
  "get_personalized_roles (loaded rs) (Some []) m cnt g
     = get_personalized_roles (loaded rs) None None cnt g
   \<and> get_personalized_roles (loaded rs) None m cnt g
     = get_personalized_roles (loaded rs) None None cnt g
   \<and> (0 \<le> cnt \<longrightarrow>
        (\<exists>res. get_personalized_roles (loaded rs) (Some []) m cnt g = Inr res
           \<and> \<not> personalized res \<and> current_role res = None
           \<and> (\<forall>s \<in> set (roles res). distance s = None)))"
proof -
  have "0 \<le> cnt \<longrightarrow>
          (\<exists>res. random_roles (loaded rs) cnt g = Inr res
             \<and> \<not> personalized res \<and> current_role res = None
             \<and> (\<forall>s \<in> set (roles res). distance s = None))"
    using random_roles_ok [of cnt "loaded rs" g] by blast
  then show ?thesis by (simp add: get_personalized_roles_def)
qed

theorem empty_role_unpersonalized_witness:
  "(0::int) \<le> 27 \<and>
   (\<exists>res. get_personalized_roles
      (loaded [\<lparr>name = ''Data Analyst'', technical = Some 7, creative = Some 4,
                 business = Some 6, customer = Some 3\<rparr>])
      (Some []) (Some [(''technical'', 9), (''creative'', 2)]) 27 [3] = Inr res
     \<and> \<not> personalized res \<and> current_role res = None
     \<and> (\<forall>s \<in> set (roles res). distance s = None))"
  using empty_role_unpersonalized
    [of "[\<lparr>name = ''Data Analyst'', technical = Some 7, creative = Some 4,
            business = Some 6, customer = Some 3\<rparr>]"
        "Some [(''technical'', 9), (''creative'', 2)]" 27 "[3]",
     THEN conjunct2, THEN conjunct2]
  by simp

section \<open>The pre-computed path\<close>

text \<open>
  C1.  A non-empty current role whose normalized form is a key of the name index gets a
  personalized answer: \<open>current_role\<close> is the canonical name stored under that key,
  which is the name of a catalog role with the same normalized form; every returned
  role has a distance, and none has the canonical name.  This holds for every count.
\<close>

theorem database_path:
  assumes "cr \<noteq> []" and "role_map rs (normalize cr) = Some canonical"
  shows "\<exists>res. get_personalized_roles (loaded rs) (Some cr) m cnt g = Inr res
           \<and> personalized res
           \<and> current_role res = Some canonical
           \<and> (\<exists>r \<in> set rs. name r = canonical \<and> normalize (name r) = normalize cr)
           \<and> (\<forall>s \<in> set (roles res).
                 (\<exists>d. distance s = Some d) \<and> name (role_obj s) \<noteq> canonical)"
proof -
  from assms(2) obtain r0 where r0: "r0 \<in> set rs" "name r0 = canonical"
    "normalize (name r0) = normalize cr"
    by (auto simp: role_map_lookup split: option.splits dest: find_SomeD)
  then have "find (\<lambda>r. name r = canonical) (rev rs) \<noteq> None"
    by (auto simp: find_None_iff)
  then obtain r1 where r1: "find (\<lambda>r. name r = canonical) (rev rs) = Some r1" by auto
  then have n1: "name r1 = canonical" by (auto dest: find_SomeD)
  have ov: "calculate_overlaps rs canonical = Some (overlap_of rs r1)"
    using r1 by (simp add: overlaps_lookup)
  let ?ov = "overlap_of rs r1"
  from select_roles_ok [of "close ?ov" "oddball ?ov" g]
  obtain sel where sel: "select_roles (close ?ov) (oddball ?ov) g = Inr sel" by blast
  let ?res = "\<lparr>roles = roles_with_distance rs (slice_to sel cnt), personalized = True,
               current_role = Some canonical, edge_case = None\<rparr>"
  have run: "get_personalized_roles (loaded rs) (Some cr) m cnt g = Inr ?res"
    using assms ov sel
    by (simp add: get_personalized_roles_def get_roles_from_database_def loaded_def
        normalize_def domI)
  have "(\<exists>d. distance s = Some d) \<and> name (role_obj s) \<noteq> canonical"
    if "s \<in> set (roles_with_distance rs (slice_to sel cnt))" for s
  proof -
    from roles_with_distance_elem [OF that]
    obtain e where e: "e \<in> set (slice_to sel cnt)" "name (role_obj s) = entry_name e"
      "distance s = Some (entry_distance e)" by blast
    from selected_from_pools [OF sel e(1)] overlap_of_entries [of e rs r1]
    have "entry_name e \<noteq> name r1" by auto
    with e n1 show ?thesis by simp
  qed
  with run r0 show ?thesis by auto
qed


theorem database_path_witness:
  "''software engineer '' \<noteq> []
   \<and> role_map [\<lparr>name = ''Software Engineer'', technical = Some 9, creative = Some 5,
                  business = Some 4, customer = Some 3\<rparr>,
                \<lparr>name = ''UX Designer'', technical = Some 4, creative = Some 9,
                  business = Some 5, customer = Some 7\<rparr>]
        (normalize ''software engineer '') = Some ''Software Engineer''
   \<and> (\<exists>res. get_personalized_roles
          (loaded [\<lparr>name = ''Software Engineer'', technical = Some 9, creative = Some 5,
                     business = Some 4, customer = Some 3\<rparr>,
                   \<lparr>name = ''UX Designer'', technical = Some 4, creative = Some 9,
                     business = Some 5, customer = Some 7\<rparr>])
          (Some ''software engineer '') None 27 [1, 0] = Inr res
        \<and> personalized res \<and> current_role res = Some ''Software Engineer''
        \<and> (\<forall>s \<in> set (roles res).
              (\<exists>d. distance s = Some d) \<and> name (role_obj s) \<noteq> ''Software Engineer''))"
proof -
  have h1: "''software engineer '' \<noteq> []" by simp
  have h2: "role_map [\<lparr>name = ''Software Engineer'', technical = Some 9, creative = Some 5,
                  business = Some 4, customer = Some 3\<rparr>,
                \<lparr>name = ''UX Designer'', technical = Some 4, creative = Some 9,
                  business = Some 5, customer = Some 7\<rparr>]
        (normalize ''software engineer '') = Some ''Software Engineer''"
    by code_simp
  from database_path [OF h1 h2, of None 27 "[1, 0]"] h1 h2 show ?thesis by blast
qed

section \<open>The pre-computed overlap entries\<close>

lemma insort_key_map:
  "insort_key f (g x) (map g ys) = map g (insort_key (\<lambda>y. f (g y)) x ys)"
  by (induction ys) simp_all

lemma sort_key_map:
  "sort_key f (map g xs) = map g (sort_key (\<lambda>y. f (g y)) xs)"
  by (induction xs) (simp_all add: insort_key_map)


lemma others_filter:
  assumes "distinct (map name rs)" "r \<in> set rs"
  shows "filter (\<lambda>other. name other \<noteq> name r) rs = filter (\<lambda>other. other \<noteq> r) rs"
proof (rule filter_cong [OF refl])
  fix x assume "x \<in> set rs"
  moreover have "inj_on name (set rs)" using assms(1) by (simp add: distinct_map)
  ultimately show "(name x \<noteq> name r) = (x \<noteq> r)" using assms(2) by (auto dest: inj_onD)
qed

lemma filter_neq_removeAll: "filter (\<lambda>other. other \<noteq> r) rs = removeAll r rs"
  by (induction rs) auto

lemma length_others:
  assumes "distinct (map name rs)" "r \<in> set rs"
  shows "length (filter (\<lambda>other. other \<noteq> r) rs) = length rs - 1"
proof -
  have d: "distinct rs" using assms(1) by (simp add: distinct_map)
  then show ?thesis
    using assms(2)
    by (simp add: filter_neq_removeAll distinct_remove1_removeAll [symmetric] length_remove1)
qed






section \<open>Close and oddball lists of one role\<close>

lemma entry_name_to_entry: "map entry_name (map to_entry ds) = map fst ds"
  by (simp add: to_entry_def)

lemma distinct_distance_names:
  assumes "distinct (map name rs)"
  shows "distinct (map fst (sort_key snd (distances_of rs r)))"
proof -
  have "map fst (distances_of rs r) = map name (filter (\<lambda>other. name other \<noteq> name r) rs)"
    by (simp add: distances_of_def comp_def)
  then have "distinct (map fst (distances_of rs r))"
    using assms by (simp add: distinct_map_filter)
  moreover have "mset (sort_key snd (distances_of rs r)) \<subseteq># mset (distances_of rs r)"
    by simp
  ultimately show ?thesis by (rule distinct_map_submset [rotated])
qed

lemma sort_key_const: "\<forall>x \<in> set xs. f x = c \<Longrightarrow> sort_key f xs = xs"
proof (induction xs)
  case Nil
  then show ?case by simp
next
  case (Cons x xs)
  then have "sort_key f xs = xs" by simp
  then have "sort_key f (x # xs) = insort_key f x xs" by simp
  also have "\<dots> = x # xs" using Cons.prems by (cases xs) simp_all
  finally show ?case .
qed

lemma plain_distance:
  "calculate_distance (metrics_of_role (plain_role a)) (metrics_of_role (plain_role b)) = 0"
  by (simp add: metrics_of_role_def plain_role_def get5_def)

lemma name_plain_role: "name (plain_role n) = n"
  by (simp add: plain_role_def)

lemma catalog16_distinct: "distinct (map name catalog16)"
  by (simp add: catalog16_def name_plain_role)

lemma catalog16_distances:
  "distances_of catalog16 (plain_role ''R01'') =
     map (\<lambda>n. (n, 0)) [''R02'', ''R03'', ''R04'', ''R05'', ''R06'', ''R07'', ''R08'', ''R09'',
        ''R10'', ''R11'', ''R12'', ''R13'', ''R14'', ''R15'', ''R16'']"
  by (simp add: distances_of_def catalog16_def plain_distance name_plain_role)

lemma catalog16_overlap:
  "overlap_of catalog16 (plain_role ''R01'') =
     \<lparr>close = map (\<lambda>n. \<lparr>entry_name = n, entry_distance = 0\<rparr>)
        [''R02'', ''R03'', ''R04'', ''R05'', ''R06'', ''R07'', ''R08'', ''R09'',
        ''R10'', ''R11'', ''R12'', ''R13'', ''R14'', ''R15'', ''R16''],
      oddball = map (\<lambda>n. \<lparr>entry_name = n, entry_distance = 0\<rparr>)
        [''R09'', ''R10'', ''R11'', ''R12'', ''R13'']\<rparr>"
proof -
  have s: "sort_key snd (distances_of catalog16 (plain_role ''R01''))
             = distances_of catalog16 (plain_role ''R01'')"
    by (rule sort_key_const [where c = 0]) (simp add: catalog16_distances)
  show ?thesis
    by (simp only: overlap_of_eq s) (simp add: catalog16_distances to_entry_def)
qed

text \<open>
  C4, as the code has it.  The close list is the first 15 and the oddball list lies in
  the last 8 of the n - 1 other roles, so the two cannot meet once 15 + 8 \<le> n - 1:
  in a catalog of pairwise distinct names and at least 24 roles no name is in both.
\<close>

theorem close_oddball_disjoint:
  assumes "distinct (map name rs)" and "r \<in> set rs" and "24 \<le> length rs"
  shows "\<exists>ov. overlaps (loaded rs) (name r) = Some ov
           \<and> set (map entry_name (close ov)) \<inter> set (map entry_name (oddball ov)) = {}"
proof -
  let ?ds = "sort_key snd (distances_of rs r)"
  let ?names = "map fst ?ds"
  have len: "length (distances_of rs r) = length rs - 1"
    using length_others [OF assms(1,2)]
    by (simp add: distances_of_def others_filter [OF assms(1,2)])
  have d: "distinct ?names" using assms(1) by (rule distinct_distance_names)
  have "15 \<le> length (distances_of rs r) - 8" using len assms(3) by simp
  with d have "set (take 15 ?names) \<inter> set (drop (length (distances_of rs r) - 8) ?names) = {}"
    by (rule set_take_disj_set_drop_if_distinct)
  moreover have "set (take 5 (drop (length (distances_of rs r) - 8) ?names))
                   \<subseteq> set (drop (length (distances_of rs r) - 8) ?names)"
    by (rule set_take_subset)
  ultimately have "set (take 15 ?names)
      \<inter> set (take 5 (drop (length (distances_of rs r) - 8) ?names)) = {}" by blast
  then have "set (map entry_name (close (overlap_of rs r)))
      \<inter> set (map entry_name (oddball (overlap_of rs r))) = {}"
    by (simp only: overlap_of_eq overlap_entry.simps entry_name_to_entry take_map drop_map)
  then show ?thesis
    using overlaps_distinct [OF assms(1,2)] by (simp add: loaded_def)
qed


theorem close_oddball_disjoint_witness:
  "distinct (map name catalog24) \<and> plain_role ''R01'' \<in> set catalog24
   \<and> 24 \<le> length catalog24
   \<and> (\<exists>ov. overlaps (loaded catalog24) (name (plain_role ''R01'')) = Some ov
           \<and> set (map entry_name (close ov)) \<inter> set (map entry_name (oddball ov)) = {})"
proof -
  have h1: "distinct (map name catalog24)" by (simp add: catalog24_def name_plain_role)
  have h2: "plain_role ''R01'' \<in> set catalog24" by (simp add: catalog24_def)
  have h3: "24 \<le> length catalog24" by (simp add: catalog24_def)
  from close_oddball_disjoint [OF h1 h2 h3] h1 h2 h3 show ?thesis by blast
qed

text \<open>
  C4, as it is stated, fails: sixteen roles are more than both pool sizes, yet for the
  first role of \<open>catalog16\<close> the close list is all of the fifteen others and the
  oddball list is the eighth to twelfth of them, so that \<open>R09\<close> is in both.
\<close>

theorem close_oddball_overlap_counterexample:
  "15 < length catalog16 \<and> 8 < length catalog16 \<and> plain_role ''R01'' \<in> set catalog16
   \<and> overlaps (loaded catalog16) (name (plain_role ''R01''))
       = Some (overlap_of catalog16 (plain_role ''R01''))
   \<and> ''R09'' \<in> set (map entry_name (close (overlap_of catalog16 (plain_role ''R01''))))
   \<and> ''R09'' \<in> set (map entry_name (oddball (overlap_of catalog16 (plain_role ''R01''))))"
proof -
  have a: "plain_role ''R01'' \<in> set catalog16" by (simp add: catalog16_def)
  have "overlaps (loaded catalog16) (name (plain_role ''R01''))
       = Some (overlap_of catalog16 (plain_role ''R01''))"
    using overlaps_distinct [OF catalog16_distinct a] by (simp add: loaded_def)
  moreover have "length catalog16 = 16" by (simp add: catalog16_def)
  ultimately show ?thesis using a by (simp add: catalog16_overlap)
qed


section \<open>The on-the-fly path\<close>

lemma spec_vector_distance_eq:
  "spec_vector_distance v = (\<lambda>other. calculate_distance v (metrics_of_role other))"
  by (rule ext) (simp add: spec_vector_distance_def metrics_of_role_def split: prod.splits)

lemma on_fly_spec: "calculate_overlaps_on_fly (loaded rs) v = spec_pools_on_fly rs v"
proof -
  let ?d = "\<lambda>other. calculate_distance v (metrics_of_role other)"
  let ?pair = "\<lambda>other. (name other, ?d other)"
  let ?so = "sort_key ?d rs"
  have e: "map to_entry (map ?pair xs)
             = map (\<lambda>other. \<lparr>entry_name = name other, entry_distance = ?d other\<rparr>) xs" for xs
    by (simp add: to_entry_def)
  have s: "sort_key snd (map ?pair rs) = map ?pair ?so"
    by (simp add: sort_key_map)
  have ev: "spec_vector_entry v
              = (\<lambda>other. \<lparr>entry_name = name other, entry_distance = ?d other\<rparr>)"
    by (rule ext) (simp add: spec_vector_entry_def spec_vector_distance_eq)
  have "calculate_overlaps_on_fly (loaded rs) v =
      \<lparr>close = map to_entry (take 20 (map ?pair ?so)),
       oddball = map to_entry (take 7 (drop (length (map ?pair ?so) - 10) (map ?pair ?so)))\<rparr>"
    by (simp only: on_fly_eq Let_def loaded_def role_database.simps s)
  also have "\<dots> = spec_pools_on_fly rs v"
    by (simp only: spec_pools_on_fly_def ev spec_vector_distance_eq Let_def
        take_map [symmetric] drop_map [symmetric] e length_map)
  finally show ?thesis .
qed

lemma roles_with_distance_pools:
  assumes "select_roles cl od g = Inr sel" "s \<in> set (roles_with_distance rs (slice_to sel cnt))"
  shows "role_obj s \<in> set rs \<and>
         (\<exists>e \<in> set cl \<union> set od. entry_name e = name (role_obj s)
            \<and> distance s = Some (entry_distance e))"
proof -
  from roles_with_distance_elem [OF assms(2)]
  obtain e where e: "e \<in> set (slice_to sel cnt)" "role_obj s \<in> set rs"
    "name (role_obj s) = entry_name e" "distance s = Some (entry_distance e)" by blast
  from selected_from_pools [OF assms(1) e(1)] e show ?thesis by auto
qed

lemma request_vector_eq:
  "(metrics_get ms ''technical'', metrics_get ms ''creative'',
    metrics_get ms ''business'', metrics_get ms ''customer'') = spec_request_vector ms"
  by (simp add: metrics_get_def spec_request_vector_def)

lemma slice_to_truncate: "slice_to xs cnt = spec_truncate xs cnt"
  by (simp add: slice_to_def spec_truncate_def)

lemma submset_same_size:
  assumes "A \<subseteq># B" "size A = size B"
  shows "A = B"
proof -
  from assms(1) obtain C where C: "B = A + C" by (auto simp: mset_subset_eq_exists_conv)
  with assms(2) have "C = {#}" by simp
  with C show ?thesis by simp
qed

lemma select_roles_all:
  assumes "length cl \<le> 20" "length od \<le> 7"
  shows "\<exists>sel. select_roles cl od g = Inr sel \<and> mset sel = mset (cl @ od)"
proof -
  from select_roles_ok [of cl od g] obtain sel where sel: "select_roles cl od g = Inr sel"
    "mset sel \<subseteq># mset cl + mset od" "length sel = min 20 (length cl) + min 7 (length od)"
    by blast
  from sel(3) assms have "size (mset sel) = size (mset cl + mset od)" by simp
  with sel(2) have "mset sel = mset cl + mset od" by (rule submset_same_size)
  with sel(1) show ?thesis by simp
qed

lemma roles_with_distance_all:
  assumes "\<forall>e \<in> set sels. \<exists>r \<in> set rs. name r = entry_name e"
  shows "map (\<lambda>s. (name (role_obj s), distance s)) (roles_with_distance rs sels)
           = map (\<lambda>e. (entry_name e, Some (entry_distance e))) sels
         \<and> (\<forall>s \<in> set (roles_with_distance rs sels).
               find (\<lambda>r. name r = name (role_obj s)) rs = Some (role_obj s))"
  using assms
proof (induction sels)
  case Nil
  then show ?case by simp
next
  case (Cons e sels)
  from Cons.prems obtain r0 where "r0 \<in> set rs" "name r0 = entry_name e" by auto
  then have "find (\<lambda>r. name r = entry_name e) rs \<noteq> None" by (auto simp: find_None_iff)
  then obtain r where r: "find (\<lambda>r. name r = entry_name e) rs = Some r" by auto
  from find_SomeD [OF r] have n: "name r = entry_name e" by simp
  from Cons.IH Cons.prems
  have IH: "map (\<lambda>s. (name (role_obj s), distance s)) (roles_with_distance rs sels)
           = map (\<lambda>e. (entry_name e, Some (entry_distance e))) sels"
    "\<forall>s \<in> set (roles_with_distance rs sels).
               find (\<lambda>r. name r = name (role_obj s)) rs = Some (role_obj s)" by simp_all
  show ?case using r n IH by simp
qed

lemma spec_pools_sizes:
  "length (close (spec_pools_on_fly rs v)) \<le> 20 \<and> length (oddball (spec_pools_on_fly rs v)) \<le> 7"
  by (simp add: spec_pools_on_fly_def Let_def)

lemma spec_pools_names:
  assumes "e \<in> set (close (spec_pools_on_fly rs v) @ oddball (spec_pools_on_fly rs v))"
  shows "\<exists>r \<in> set rs. name r = entry_name e"
proof -
  from assms have "e \<in> spec_vector_entry v ` set (sort_key (spec_vector_distance v) rs)"
    by (auto simp: spec_pools_on_fly_def Let_def dest!: in_set_takeD in_set_dropD)
  then show ?thesis by (auto simp: spec_vector_entry_def)
qed

text \<open>
  C6.  A non-empty current role that is not a key of the name index, with a non-empty
  metrics dictionary, gets a personalized edge-case answer that echoes the role as it
  was given.  The pools computed on the fly are those of the specification for the
  metric vector of the request: every catalog role sorted by ascending Euclidean
  distance from that vector, close the 20 nearest, oddball the first 7 of the 10
  farthest.  The selection is a permutation of close followed by oddball; the answer
  lists, for each entry of the selection truncated to the count and in that order, the
  first catalog role of the entry's name with the entry's distance.
\<close>

theorem metrics_path:
  assumes "cr \<noteq> []" and "normalize cr \<notin> dom (role_map rs)" and "ms \<noteq> []"
  shows "\<exists>res sel. get_personalized_roles (loaded rs) (Some cr) (Some ms) cnt g = Inr res
           \<and> personalized res \<and> edge_case res = Some True \<and> current_role res = Some cr
           \<and> calculate_overlaps_on_fly (loaded rs) (spec_request_vector ms)
               = spec_pools_on_fly rs (spec_request_vector ms)
           \<and> mset sel = mset (close (spec_pools_on_fly rs (spec_request_vector ms))
                               @ oddball (spec_pools_on_fly rs (spec_request_vector ms)))
           \<and> map (\<lambda>s. (name (role_obj s), distance s)) (roles res)
               = map (\<lambda>e. (entry_name e, Some (entry_distance e))) (spec_truncate sel cnt)
           \<and> (\<forall>s \<in> set (roles res).
                 find (\<lambda>r. name r = name (role_obj s)) rs = Some (role_obj s))
           \<and> (\<forall>s \<in> set (roles res). role_obj s \<in> set rs \<and>
                 (\<exists>e \<in> set (close (spec_pools_on_fly rs (spec_request_vector ms)))
                      \<union> set (oddball (spec_pools_on_fly rs (spec_request_vector ms))).
                    entry_name e = name (role_obj s) \<and> distance s = Some (entry_distance e)))"
proof -
  let ?v = "spec_request_vector ms"
  let ?ov = "spec_pools_on_fly rs ?v"
  from spec_pools_sizes [of rs ?v] select_roles_all [of "close ?ov" "oddball ?ov" g]
  obtain sel where sel: "select_roles (close ?ov) (oddball ?ov) g = Inr sel"
    and perm: "mset sel = mset (close ?ov @ oddball ?ov)" by blast
  let ?res = "\<lparr>roles = roles_with_distance rs (spec_truncate sel cnt), personalized = True,
               current_role = Some cr, edge_case = Some True\<rparr>"
  have "get_roles_from_metrics (loaded rs) ms cr cnt g = Inr ?res"
    using sel
    by (simp add: get_roles_from_metrics_def request_vector_eq on_fly_spec Let_def
        slice_to_truncate)
      (simp add: loaded_def)
  then have run: "get_personalized_roles (loaded rs) (Some cr) (Some ms) cnt g = Inr ?res"
    using assms by (simp add: get_personalized_roles_def normalize_def loaded_def)
  have "set (spec_truncate sel cnt) \<subseteq> set sel"
    by (auto simp: spec_truncate_def dest: in_set_takeD)
  also have "set sel = set (close ?ov @ oddball ?ov)" using perm by (rule mset_eq_setD)
  finally have "\<forall>e \<in> set (spec_truncate sel cnt). \<exists>r \<in> set rs. name r = entry_name e"
    using spec_pools_names [of _ rs ?v] by blast
  from roles_with_distance_all [OF this]
  have shown: "map (\<lambda>s. (name (role_obj s), distance s)) (roles ?res)
               = map (\<lambda>e. (entry_name e, Some (entry_distance e))) (spec_truncate sel cnt)"
    "\<forall>s \<in> set (roles ?res). find (\<lambda>r. name r = name (role_obj s)) rs = Some (role_obj s)"
    by simp_all
  have pools: "\<forall>s \<in> set (roles ?res). role_obj s \<in> set rs \<and>
                 (\<exists>e \<in> set (close ?ov) \<union> set (oddball ?ov).
                    entry_name e = name (role_obj s) \<and> distance s = Some (entry_distance e))"
    using roles_with_distance_pools [OF sel, of _ rs cnt] by (simp add: slice_to_truncate)
  have flags: "personalized ?res" "edge_case ?res = Some True" "current_role ?res = Some cr"
    by simp_all
  from run flags on_fly_spec [of rs ?v] perm shown pools show ?thesis by blast
qed

theorem metrics_path_witness:
  "''unknown-xyz-role'' \<noteq> []
   \<and> normalize ''unknown-xyz-role'' \<notin> dom (role_map catalog3)
   \<and> [(''technical'', 9), (''creative'', 2), (''business'', 3), (''customer'', 1 :: int)] \<noteq> []
   \<and> calculate_overlaps_on_fly (loaded catalog3) (9, 2, 3, 1)
       = \<lparr>close = [\<lparr>entry_name = ''Backend Developer'', entry_distance = sqrt 2\<rparr>,
                   \<lparr>entry_name = ''Sales Engineer'', entry_distance = sqrt 78\<rparr>,
                   \<lparr>entry_name = ''UX Designer'', entry_distance = sqrt 102\<rparr>],
          oddball = [\<lparr>entry_name = ''Backend Developer'', entry_distance = sqrt 2\<rparr>,
                     \<lparr>entry_name = ''Sales Engineer'', entry_distance = sqrt 78\<rparr>,
                     \<lparr>entry_name = ''UX Designer'', entry_distance = sqrt 102\<rparr>]\<rparr>
   \<and> (\<exists>res sel. get_personalized_roles (loaded catalog3) (Some ''unknown-xyz-role'')
               (Some [(''technical'', 9), (''creative'', 2), (''business'', 3), (''customer'', 1)])
               27 [0] = Inr res
           \<and> personalized res \<and> edge_case res = Some True
           \<and> current_role res = Some ''unknown-xyz-role''
           \<and> mset sel = mset [\<lparr>entry_name = ''Backend Developer'', entry_distance = sqrt 2\<rparr>,
                               \<lparr>entry_name = ''Sales Engineer'', entry_distance = sqrt 78\<rparr>,
                               \<lparr>entry_name = ''UX Designer'', entry_distance = sqrt 102\<rparr>,
                               \<lparr>entry_name = ''Backend Developer'', entry_distance = sqrt 2\<rparr>,
                               \<lparr>entry_name = ''Sales Engineer'', entry_distance = sqrt 78\<rparr>,
                               \<lparr>entry_name = ''UX Designer'', entry_distance = sqrt 102\<rparr>]
           \<and> map (\<lambda>s. (name (role_obj s), distance s)) (roles res)
               = map (\<lambda>e. (entry_name e, Some (entry_distance e))) sel)"
proof -
  let ?ms = "[(''technical'', 9), (''creative'', 2), (''business'', 3), (''customer'', 1 :: int)]"
  let ?pool = "[\<lparr>entry_name = ''Backend Developer'', entry_distance = sqrt 2\<rparr>,
                \<lparr>entry_name = ''Sales Engineer'', entry_distance = sqrt 78\<rparr>,
                \<lparr>entry_name = ''UX Designer'', entry_distance = sqrt 102\<rparr>]"
  have h1: "''unknown-xyz-role'' \<noteq> []" by simp
  have "role_map catalog3 (normalize ''unknown-xyz-role'') = None" by code_simp
  then have h2: "normalize ''unknown-xyz-role'' \<notin> dom (role_map catalog3)"
    by (simp add: domIff)
  have h3: "?ms \<noteq> []" by simp
  have v: "spec_request_vector ?ms = (9, 2, 3, 1)" by (simp add: spec_request_vector_def)
  have pools: "spec_pools_on_fly catalog3 (9, 2, 3, 1) = \<lparr>close = ?pool, oddball = ?pool\<rparr>"
    by (simp add: spec_pools_on_fly_def catalog3_def spec_vector_distance_def
        spec_vector_entry_def get5_def Let_def)
  from metrics_path [OF h1 h2 h3, of 27 "[0]"]
  obtain res sel where
    run: "get_personalized_roles (loaded catalog3) (Some ''unknown-xyz-role'') (Some ?ms) 27 [0]
            = Inr res"
    and flags: "personalized res" "edge_case res = Some True"
      "current_role res = Some ''unknown-xyz-role''"
    and ov: "calculate_overlaps_on_fly (loaded catalog3) (9, 2, 3, 1) = \<lparr>close = ?pool, oddball = ?pool\<rparr>"
    and perm: "mset sel = mset (?pool @ ?pool)"
    and shown: "map (\<lambda>s. (name (role_obj s), distance s)) (roles res)
                  = map (\<lambda>e. (entry_name e, Some (entry_distance e))) (spec_truncate sel 27)"
    unfolding v pools overlap_entry.simps by blast
  from perm have "size (mset sel) = 6" by simp
  then have "length sel = 6" by simp
  then have "spec_truncate sel 27 = sel" by (simp add: spec_truncate_def)
  with shown have shown': "map (\<lambda>s. (name (role_obj s), distance s)) (roles res)
                  = map (\<lambda>e. (entry_name e, Some (entry_distance e))) sel" by simp
  from perm have perm': "mset sel = mset [\<lparr>entry_name = ''Backend Developer'', entry_distance = sqrt 2\<rparr>,
                               \<lparr>entry_name = ''Sales Engineer'', entry_distance = sqrt 78\<rparr>,
                               \<lparr>entry_name = ''UX Designer'', entry_distance = sqrt 102\<rparr>,
                               \<lparr>entry_name = ''Backend Developer'', entry_distance = sqrt 2\<rparr>,
                               \<lparr>entry_name = ''Sales Engineer'', entry_distance = sqrt 78\<rparr>,
                               \<lparr>entry_name = ''UX Designer'', entry_distance = sqrt 102\<rparr>]"
    by (simp only: append.simps)
  from h1 h2 h3 ov run flags perm' shown' show ?thesis by blast
qed

section \<open>A count above the size of the catalog\<close>

lemma length_selected:
  assumes "select_roles cl od g = Inr sel"
  shows "length (roles_with_distance rs (slice_to sel cnt)) \<le> min 20 (length cl) + min 7 (length od)"
proof -
  from select_roles_ok [of cl od g] assms
  have "length sel = min 20 (length cl) + min 7 (length od)" by auto
  moreover have "length (roles_with_distance rs (slice_to sel cnt)) \<le> length (slice_to sel cnt)"
    by (rule roles_with_distance_length)
  moreover have "length (slice_to sel cnt) \<le> length sel" by (rule length_slice_to)
  ultimately show ?thesis by linarith
qed

lemma length_distances_of:
  assumes "r \<in> set rs"
  shows "length (distances_of rs r) \<le> length rs - 1"
proof -
  have "length (filter (\<lambda>other. name other \<noteq> name r) rs) < length rs"
    using assms by (rule length_filter_less) simp
  then show ?thesis by (simp add: distances_of_def)
qed

lemma database_run:
  assumes "role_map rs normalized = Some canonical"
  shows "\<exists>res. get_roles_from_database (loaded rs) normalized cnt g = Inr res
           \<and> personalized res \<and> edge_case res = None
           \<and> length (roles res) \<le> min 20 (2 * (length rs - 1))"
proof -
  from assms obtain r0 where r0: "r0 \<in> set rs" "name r0 = canonical"
    by (auto simp: role_map_lookup split: option.splits dest: find_SomeD)
  then have "find (\<lambda>r. name r = canonical) (rev rs) \<noteq> None"
    by (auto simp: find_None_iff)
  then obtain r1 where r1: "find (\<lambda>r. name r = canonical) (rev rs) = Some r1" by auto
  then have in1: "r1 \<in> set rs" by (auto dest: find_SomeD)
  have ov: "calculate_overlaps rs canonical = Some (overlap_of rs r1)"
    using r1 by (simp add: overlaps_lookup)
  let ?ov = "overlap_of rs r1"
  from select_roles_ok [of "close ?ov" "oddball ?ov" g]
  obtain sel where sel: "select_roles (close ?ov) (oddball ?ov) g = Inr sel" by blast
  let ?res = "\<lparr>roles = roles_with_distance rs (slice_to sel cnt), personalized = True,
               current_role = Some canonical, edge_case = None\<rparr>"
  have run: "get_roles_from_database (loaded rs) normalized cnt g = Inr ?res"
    using assms ov sel by (simp add: get_roles_from_database_def loaded_def)
  have lc: "length (close ?ov) \<le> min 15 (length rs - 1)"
    using length_distances_of [OF in1] by (simp add: overlap_of_eq)
  have lo: "length (oddball ?ov) \<le> min 5 (length rs - 1)"
    using length_distances_of [OF in1] by (simp add: overlap_of_eq)
  from length_selected [OF sel, of rs cnt] lc lo
  have "length (roles_with_distance rs (slice_to sel cnt)) \<le> min 20 (2 * (length rs - 1))"
    by linarith
  with run show ?thesis by simp
qed

lemma metrics_run:
  "\<exists>res. get_roles_from_metrics (loaded rs) ms cr cnt g = Inr res
     \<and> personalized res \<and> edge_case res = Some True
     \<and> length (roles res) \<le> min 27 (2 * length rs)"
proof -
  let ?v = "(metrics_get ms ''technical'', metrics_get ms ''creative'',
             metrics_get ms ''business'', metrics_get ms ''customer'')"
  let ?ov = "calculate_overlaps_on_fly (loaded rs) ?v"
  from select_roles_ok [of "close ?ov" "oddball ?ov" g]
  obtain sel where sel: "select_roles (close ?ov) (oddball ?ov) g = Inr sel" by blast
  let ?res = "\<lparr>roles = roles_with_distance rs (slice_to sel cnt), personalized = True,
               current_role = Some cr, edge_case = Some True\<rparr>"
  have run: "get_roles_from_metrics (loaded rs) ms cr cnt g = Inr ?res"
    using sel by (simp add: get_roles_from_metrics_def Let_def) (simp add: loaded_def)
  have lc: "length (close ?ov) \<le> min 20 (length rs)"
    by (simp add: on_fly_eq Let_def loaded_def)
  have lo: "length (oddball ?ov) \<le> min 7 (length rs)"
    by (simp add: on_fly_eq Let_def loaded_def)
  from length_selected [OF sel, of rs cnt] lc lo
  have "length (roles_with_distance rs (slice_to sel cnt)) \<le> min 27 (2 * length rs)"
    by linarith
  with run show ?thesis by simp
qed

text \<open>
  C3, as the code has it.  With a count above the size N of the catalog no path raises:
  every sample takes what its pool holds.  The unpersonalized answer is the N roles of
  the catalog; the pre-computed path returns at most 20 roles and at most 2 (N - 1), the
  on-the-fly path at most 27 and at most 2 N, since a role can be taken once from the
  close and once from the oddball pool.
\<close>

theorem oversized_count:
  assumes "int (length rs) < cnt"
  shows "\<exists>res. get_personalized_roles (loaded rs) cur m cnt g = Inr res
           \<and> (\<not> personalized res \<longrightarrow> length (roles res) = length rs)
           \<and> (personalized res \<and> edge_case res = None
                \<longrightarrow> length (roles res) \<le> min 20 (2 * (length rs - 1)))
           \<and> (personalized res \<and> edge_case res = Some True
                \<longrightarrow> length (roles res) \<le> min 27 (2 * length rs))"
proof -
  have c0: "0 \<le> cnt" using assms by linarith
  have mn: "min (nat cnt) (length rs) = length rs" using assms by linarith
  from random_roles_ok [OF c0, of "loaded rs" g] mn
  have rnd: "\<exists>res. random_roles (loaded rs) cnt g = Inr res \<and> \<not> personalized res
           \<and> length (roles res) = length rs"
    by (auto simp: loaded_def)
  show ?thesis
  proof (cases "cur = None \<or> cur = Some []")
    case True
    with rnd show ?thesis by (auto simp: get_personalized_roles_def)
  next
    case False
    then obtain cr where cr: "cur = Some cr" "cr \<noteq> []" by auto
    show ?thesis
    proof (cases "role_map rs (normalize cr)")
      case (Some canonical)
      from database_run [OF Some, of cnt g] cr Some show ?thesis
        by (auto simp: get_personalized_roles_def normalize_def loaded_def domI)
    next
      case None
      then have nd: "strip (lower cr) \<notin> dom (roles_normalized (loaded rs))"
        by (simp add: normalize_def loaded_def domIff)
      show ?thesis
      proof (cases "m = None \<or> m = Some []")
        case True
        with rnd cr nd show ?thesis by (auto simp: get_personalized_roles_def)
      next
        case False
        then obtain ms where ms: "m = Some ms" "ms \<noteq> []" by auto
        from metrics_run [of rs ms cr cnt g] cr nd ms show ?thesis
          by (auto simp: get_personalized_roles_def)
      qed
    qed
  qed
qed


theorem oversized_count_witness:
  "int (length [plain_role ''A'']) < 27
   \<and> (\<exists>res. get_personalized_roles (loaded [plain_role ''A'']) (Some ''a'') None 27 [] = Inr res
           \<and> (\<not> personalized res \<longrightarrow> length (roles res) = length [plain_role ''A''])
           \<and> (personalized res \<and> edge_case res = None
                \<longrightarrow> length (roles res) \<le> min 20 (2 * (length [plain_role ''A''] - 1)))
           \<and> (personalized res \<and> edge_case res = Some True
                \<longrightarrow> length (roles res) \<le> min 27 (2 * length [plain_role ''A''])))"
proof -
  have h: "int (length [plain_role ''A'']) < 27" by simp
  from oversized_count [OF h, of "Some ''a''" None "[]"] h show ?thesis by blast
qed

text \<open>
  C3, as it is stated, fails on the on-the-fly path: from a catalog of one role and a
  count of 27 the answer holds that role twice, once from each pool.
\<close>

theorem returned_more_than_catalog_counterexample:
  "int (length [plain_role ''A'']) < 27 \<and>
   get_personalized_roles (loaded [plain_role ''A'']) (Some ''x'') (Some [(''technical'', 5)]) 27 []
     = Inr \<lparr>roles = [\<lparr>role_obj = plain_role ''A'', distance = Some 0\<rparr>,
                     \<lparr>role_obj = plain_role ''A'', distance = Some 0\<rparr>],
            personalized = True, current_role = Some ''x'', edge_case = Some True\<rparr>"
proof -
  have n: "normalize ''x'' = ''x''" "normalize ''A'' = ''a''" by code_simp+
  have d: "role_map [plain_role ''A''] = [''a'' \<mapsto> ''A'']"
    by (simp add: role_map_def name_plain_role n)
  have v: "metrics_get [(''technical'', 5)] ''technical'' = 5"
    "metrics_get [(''technical'', 5)] ''creative'' = 5"
    "metrics_get [(''technical'', 5)] ''business'' = 5"
    "metrics_get [(''technical'', 5)] ''customer'' = 5"
    by (simp_all add: metrics_get_def)
  have ov: "calculate_overlaps_on_fly (loaded [plain_role ''A'']) (5, 5, 5, 5)
          = \<lparr>close = [\<lparr>entry_name = ''A'', entry_distance = 0\<rparr>],
             oddball = [\<lparr>entry_name = ''A'', entry_distance = 0\<rparr>]\<rparr>"
    by (simp add: on_fly_eq loaded_def to_entry_def name_plain_role)
       (simp add: plain_role_def metrics_of_role_def get5_def)
  have sel: "select_roles [\<lparr>entry_name = ''A'', entry_distance = 0\<rparr>]
                [\<lparr>entry_name = ''A'', entry_distance = 0\<rparr>] []
             = Inr [\<lparr>entry_name = ''A'', entry_distance = 0\<rparr>,
                    \<lparr>entry_name = ''A'', entry_distance = 0\<rparr>]"
    by (simp add: select_roles_def random_sample_def CLOSE_MATCHES_COUNT_def ODDBALL_COUNT_def
        randbelow_def random_shuffle_def)
  have "get_roles_from_metrics (loaded [plain_role ''A'']) [(''technical'', 5)] ''x'' 27 []
     = Inr \<lparr>roles = [\<lparr>role_obj = plain_role ''A'', distance = Some 0\<rparr>,
                     \<lparr>role_obj = plain_role ''A'', distance = Some 0\<rparr>],
            personalized = True, current_role = Some ''x'', edge_case = Some True\<rparr>"
    by (simp add: get_roles_from_metrics_def v ov sel slice_to_def)
       (simp add: loaded_def name_plain_role)
  then show ?thesis
    by (simp add: get_personalized_roles_def n [unfolded normalize_def])
       (simp add: loaded_def d)
qed


section \<open>Loading from a missing or unparsable file\<close>

text \<open>
  C5, as the code has it.  With no roles file, startup loading ends without an
  exception: the warning is printed, then both counts, which are 0, and the name index,
  the overlaps and the role list are empty.  With a file that is not JSON, the exception
  of \<^verbatim>\<open>json.load\<close> leaves both loaders and \<^verbatim>\<open>init_role_database\<close>.
\<close>

theorem loading_missing_and_unparsable:
  "init_role_database path NoFile new_database
     = ([Warning_not_found path, Loaded_roles 0, Calculated_overlaps 0],
        Inr \<lparr>normalized_attr = Some Map.empty, overlaps_attr = Some Map.empty,
             all_roles_attr = Some []\<rparr>)
   \<and> load_normalized path NoFile = ([Warning_not_found path], Inr Map.empty)
   \<and> load_all_roles NoFile = Inr []
   \<and> snd (load_normalized path BadJson) = Inl JSONDecodeError
   \<and> load_all_roles BadJson = Inl JSONDecodeError
   \<and> snd (init_role_database path BadJson new_database) = Inl JSONDecodeError"
  by (simp add: init_role_database_def prop_roles_normalized_def prop_overlaps_def
      prop_all_roles_def load_normalized_def load_all_roles_def new_database_def
      calculate_overlaps_def)

text \<open>
  C5, as it is stated, fails for a malformed source: on a roles file that is present but
  is not JSON neither loader returns an empty value, both raise.
\<close>

theorem unparsable_file_raises_counterexample:
  "load_normalized ''data/roles_technology.json'' BadJson = ([], Inl JSONDecodeError)
   \<and> load_all_roles BadJson = Inl JSONDecodeError"
  by (simp add: load_normalized_def load_all_roles_def)

section \<open>Requests leave the catalog as it is\<close>

lemma prefix_update_fresh:
  assumes "prefix h h'" "length h \<le> a"
  shows "prefix h (h'[a := x])"
proof -
  from assms(1) obtain ys where "h' = h @ ys" by (auto simp: prefix_def)
  then show ?thesis using assms(2) by (simp add: list_update_append)
qed

lemma prefix_nth: "prefix h h' \<Longrightarrow> a < length h \<Longrightarrow> h' ! a = h ! a"
  by (auto simp: prefix_def nth_append)

lemma prefix_dict_at: "prefix h h' \<Longrightarrow> a < length h \<Longrightarrow> dict_at h' a = dict_at h a"
  by (auto simp: prefix_def dict_at_def nth_append)

lemma prefix_list_at: "prefix h h' \<Longrightarrow> a < length h \<Longrightarrow> list_at h' a = list_at h a"
  by (auto simp: prefix_def list_at_def nth_append)

lemma dict_at_valid: "dict_at h a = Some d \<Longrightarrow> a < length h"
  by (simp add: dict_at_def split: if_splits)

lemma find_role_SomeD:
  "find_role h refs nm = Some (a, d) \<Longrightarrow> a \<in> set refs \<and> dict_at h a = Some d"
  by (auto simp: find_role_def split: option.splits dest: find_SomeD)

lemma roles_with_distance_st_frame:
  "roles_with_distance_st refs sels h = (out, h') \<Longrightarrow> \<forall>a \<in> set refs. a < length h \<Longrightarrow>
     prefix h h' \<and>
     (\<forall>c \<in> set out. length h \<le> c \<and>
        (\<exists>a \<in> set refs. \<exists>d e. dict_at h a = Some d \<and> dict_at h' c = Some (d\<lparr>distance := Some e\<rparr>)))"
proof (induction sels arbitrary: h out h')
  case Nil
  then show ?case by simp
next
  case (Cons sel sels)
  show ?case
  proof (cases "find_role h refs (entry_name sel)")
    case None
    with Cons show ?thesis by simp
  next
    case (Some p)
    obtain a d where p: "p = (a, d)" by (cases p)
    from Some p have a: "a \<in> set refs" "dict_at h a = Some d"
      by (auto dest: find_role_SomeD)
    let ?d' = "d\<lparr>distance := Some (entry_distance sel)\<rparr>"
    let ?h2 = "h @ [Role_dict ?d']"
    obtain rest h3 where r: "roles_with_distance_st refs sels ?h2 = (rest, h3)" by force
    from Cons.prems(1) Some p r have out: "out = length h # rest" and h': "h' = h3"
      by (simp_all add: alloc_def)
    have valid2: "\<forall>a \<in> set refs. a < length ?h2" using Cons.prems(2) by auto
    from Cons.IH [OF r valid2]
    have ih: "prefix ?h2 h3"
      "\<forall>c \<in> set rest. length ?h2 \<le> c \<and>
        (\<exists>a \<in> set refs. \<exists>d e. dict_at ?h2 a = Some d \<and> dict_at h3 c = Some (d\<lparr>distance := Some e\<rparr>))"
      by simp_all
    have p2: "prefix h ?h2" by simp
    then have p3: "prefix h h3" using ih(1) by (rule prefix_order.trans)
    have "dict_at ?h2 (length h) = Some ?d'" by (simp add: dict_at_def)
    then have new: "dict_at h3 (length h) = Some ?d'"
      using prefix_dict_at [OF ih(1), of "length h"] by simp
    have rest: "length h \<le> c \<and>
        (\<exists>a \<in> set refs. \<exists>d e. dict_at h a = Some d \<and> dict_at h3 c = Some (d\<lparr>distance := Some e\<rparr>))"
      if c: "c \<in> set rest" for c
    proof -
      from ih(2) c obtain a' d' e where x: "length ?h2 \<le> c" "a' \<in> set refs"
        "dict_at ?h2 a' = Some d'" "dict_at h3 c = Some (d'\<lparr>distance := Some e\<rparr>)" by blast
      from x(2) Cons.prems(2) have "a' < length h" by simp
      with prefix_dict_at [OF p2 this] x(3) have "dict_at h a' = Some d'" by simp
      with x show ?thesis by auto
    qed
    have first: "\<exists>a \<in> set refs. \<exists>d e. dict_at h a = Some d
                   \<and> dict_at h3 (length h) = Some (d\<lparr>distance := Some e\<rparr>)"
      using a new by blast
    from p3 rest first show ?thesis unfolding out h' by auto
  qed
qed

lemma list_at_append_right: "list_at (h @ ys) (length h + i) = list_at ys i"
  by (simp add: list_at_def nth_append)

lemma list_at_append_left: "a < length h \<Longrightarrow> list_at (h @ ys) a = list_at h a"
  by (simp add: list_at_def nth_append)

lemma list_at_single: "list_at [Entry_list xs] 0 = xs"
  by (simp add: list_at_def)

lemma select_roles_st_Inr:
  assumes "od < length h"
    and "random_sample (list_at h cl) (min CLOSE_MATCHES_COUNT (int (length (list_at h cl)))) g
           = Inr (sc, g1)"
    and "random_sample (list_at h od) (min ODDBALL_COUNT (int (length (list_at h od)))) g1
           = Inr (so, g2)"
  shows "select_roles_st h cl od g =
           Inr (length h + 2,
                h @ [Entry_list sc, Entry_list so,
                     Entry_list (fst (random_shuffle (sc @ so) g2))])"
proof -
  let ?h1 = "h @ [Entry_list sc]"
  let ?h2 = "?h1 @ [Entry_list so]"
  let ?h3 = "?h2 @ [Entry_list (sc @ so)]"
  have od1: "list_at ?h1 od = list_at h od" using assms(1) by (rule list_at_append_left)
  have c2: "list_at ?h2 (length h) = sc"
    using list_at_append_right [of h "[Entry_list sc, Entry_list so]" 0]
    by (simp add: list_at_def)
  have o2: "list_at ?h2 (length ?h1) = so"
    using list_at_append_right [of ?h1 "[Entry_list so]" 0] by (simp add: list_at_def)
  have s3: "list_at ?h3 (length ?h2) = sc @ so"
    using list_at_append_right [of ?h2 "[Entry_list (sc @ so)]" 0] by (simp add: list_at_def)
  have u: "?h3[length ?h2 := x] = ?h2 @ [x]" for x
    by (simp only: list_update_length)
  have "select_roles_st h cl od g =
          Inr (length ?h2, ?h3[length ?h2 :=
                 Entry_list (fst (random_shuffle (list_at ?h3 (length ?h2)) g2))])"
    unfolding select_roles_st_def alloc_def
    by (simp only: assms(2,3) od1 c2 o2 sum.case prod.case Let_def)
  then show ?thesis by (simp only: s3 u) simp
qed


lemma select_roles_st_ok:
  assumes "od < length h"
  shows "\<exists>sc so sel. select_roles (list_at h cl) (list_at h od) g = Inr sel
           \<and> select_roles_st h cl od g
               = Inr (length h + 2, h @ [Entry_list sc, Entry_list so, Entry_list sel])"
proof -
  let ?kc = "min CLOSE_MATCHES_COUNT (int (length (list_at h cl)))"
  let ?ko = "min ODDBALL_COUNT (int (length (list_at h od)))"
  have kc: "0 \<le> ?kc" "?kc \<le> int (length (list_at h cl))"
    by (simp_all add: CLOSE_MATCHES_COUNT_def)
  have ko: "0 \<le> ?ko" "?ko \<le> int (length (list_at h od))" by (simp_all add: ODDBALL_COUNT_def)
  from random_sample_ok [OF kc, of g]
  obtain sc g1 where sc: "random_sample (list_at h cl) ?kc g = Inr (sc, g1)" by blast
  from random_sample_ok [OF ko, of g1]
  obtain so g2 where so: "random_sample (list_at h od) ?ko g1 = Inr (so, g2)" by blast
  have "select_roles (list_at h cl) (list_at h od) g = Inr (fst (random_shuffle (sc @ so) g2))"
    using sc so by (simp add: select_roles_def)
  with select_roles_st_Inr [OF assms sc so] show ?thesis by blast
qed

lemma store_after_selection:
  assumes "od < length h" "select_roles_st h cl od g = Inr (sel, h1)"
  shows "prefix h h1 \<and> length h \<le> length h1
         \<and> (\<exists>xs. select_roles (list_at h cl) (list_at h od) g = Inr xs \<and> list_at h1 sel = xs)"
proof -
  from select_roles_st_ok [OF assms(1), of cl g] assms(2)
  obtain sc so xs where x: "select_roles (list_at h cl) (list_at h od) g = Inr xs"
    "sel = length h + 2" "h1 = h @ [Entry_list sc, Entry_list so, Entry_list xs]" by auto
  have "list_at h1 sel = xs"
    unfolding x(2,3) by (simp add: list_at_def nth_append)
  with x show ?thesis by simp
qed

lemma copies_of_catalog:
  assumes refs: "\<forall>a \<in> set refs. \<exists>r. dict_at h a = Some \<lparr>role_obj = r, distance = None\<rparr>"
    and pre: "prefix h h1"
    and run: "roles_with_distance_st refs sels h1 = (out, h2)"
  shows "prefix h h2 \<and>
         (\<forall>c \<in> set out. length h \<le> c \<and>
            (\<exists>a \<in> set refs. \<exists>r e. dict_at h a = Some \<lparr>role_obj = r, distance = None\<rparr>
                \<and> dict_at h2 c = Some \<lparr>role_obj = r, distance = Some e\<rparr>))"
proof -
  have valid: "\<forall>a \<in> set refs. a < length h" using refs by (auto dest: dict_at_valid)
  moreover have len: "length h \<le> length h1" using pre by (rule prefix_length_le)
  ultimately have valid1: "\<forall>a \<in> set refs. a < length h1" by auto
  from roles_with_distance_st_frame [OF run valid1]
  have f: "prefix h1 h2"
    "\<forall>c \<in> set out. length h1 \<le> c \<and>
        (\<exists>a \<in> set refs. \<exists>d e. dict_at h1 a = Some d \<and> dict_at h2 c = Some (d\<lparr>distance := Some e\<rparr>))"
    by simp_all
  have "length h \<le> c \<and>
            (\<exists>a \<in> set refs. \<exists>r e. dict_at h a = Some \<lparr>role_obj = r, distance = None\<rparr>
                \<and> dict_at h2 c = Some \<lparr>role_obj = r, distance = Some e\<rparr>)"
    if "c \<in> set out" for c
  proof -
    from f(2) that obtain a d e where x: "length h1 \<le> c" "a \<in> set refs"
      "dict_at h1 a = Some d" "dict_at h2 c = Some (d\<lparr>distance := Some e\<rparr>)" by blast
    from refs x(2) obtain r where r: "dict_at h a = Some \<lparr>role_obj = r, distance = None\<rparr>" by blast
    from valid x(2) have "a < length h" by simp
    from prefix_dict_at [OF pre this] x(3) r have "d = \<lparr>role_obj = r, distance = None\<rparr>" by simp
    with x r len show ?thesis by auto
  qed
  moreover have "prefix h h2" using pre f(1) by (rule prefix_order.trans)
  ultimately show ?thesis by blast
qed

lemma on_fly_st_eq:
  "\<exists>cl od. calculate_overlaps_on_fly_st h db v
            = ((length h, length h + 1), h @ [Entry_list cl, Entry_list od])
     \<and> calculate_overlaps_on_fly (database_of h db) v = \<lparr>close = cl, oddball = od\<rparr>"
  by (simp add: calculate_overlaps_on_fly_st_def calculate_overlaps_on_fly_def alloc_def Let_def
      database_of_def comp_def)

lemma example_wf: "wf_store example_store example_refs"
  by (auto simp: wf_store_def example_store_def example_refs_def dict_at_def nth_Cons'
      split: if_splits)

lemma example_run:
  "get_personalized_roles_st example_store example_refs (Some ''Data Analyst'') None 27 []
     = Inr (example_answer, example_store_after)"
proof -
  have n: "strip (lower ''Data Analyst'') = ''data analyst''" by code_simp
  have l: "list_at example_store 2 = [\<lparr>entry_name = ''UX Designer'', entry_distance = 0\<rparr>]"
    "list_at example_store 3 = [\<lparr>entry_name = ''UX Designer'', entry_distance = 0\<rparr>]"
    by (simp_all add: list_at_def example_store_def)
  have s: "random_sample [\<lparr>entry_name = ''UX Designer'', entry_distance = 0\<rparr>] 1 g
             = Inr ([\<lparr>entry_name = ''UX Designer'', entry_distance = 0\<rparr>], tl g)" for g
    by (cases g) (simp_all add: random_sample_def randbelow_def)
  have sel: "select_roles_st example_store 2 3 [] =
      Inr (6, example_store @
              [Entry_list [\<lparr>entry_name = ''UX Designer'', entry_distance = 0\<rparr>],
               Entry_list [\<lparr>entry_name = ''UX Designer'', entry_distance = 0\<rparr>],
               Entry_list [\<lparr>entry_name = ''UX Designer'', entry_distance = 0\<rparr>,
                           \<lparr>entry_name = ''UX Designer'', entry_distance = 0\<rparr>]])"
  proof -
    have "3 < length example_store" by (simp add: example_store_def)
    from select_roles_st_Inr [OF this, of 2 "[]" _ "[]" _ "[]"] show ?thesis
      by (simp add: l s CLOSE_MATCHES_COUNT_def ODDBALL_COUNT_def random_shuffle_def
          randbelow_def) (simp add: example_store_def)
  qed
  show ?thesis
    unfolding example_answer_def example_store_after_def
    apply (simp add: get_personalized_roles_st_def n example_refs_def
        get_roles_from_database_st_def sel)
    apply (simp add: list_at_def example_store_def slice_to_def find_role_def dict_at_def
        alloc_def name_plain_role)
    done
qed


text \<open>
  C8.  In a well-formed store a call only appends objects: every object that was there
  before the call, so every catalog dictionary and every list of the overlaps, is the
  same after it (the name index is a value that the call only reads).  A personalized
  answer lists new dictionaries only, each a catalog dictionary with the \<open>distance\<close>
  key added; an unpersonalized answer lists catalog dictionaries themselves, without a
  \<open>distance\<close> key, and leaves the store as it is.
\<close>

theorem catalog_not_mutated:
  assumes "wf_store h db"
    and "get_personalized_roles_st h db cur m cnt g = Inr (res, h')"
  shows "prefix h h'
         \<and> (personalized res \<longrightarrow>
               (\<forall>c \<in> set (roles res). length h \<le> c \<and>
                  (\<exists>a \<in> set (all_roles_refs db). \<exists>r e.
                      dict_at h a = Some \<lparr>role_obj = r, distance = None\<rparr>
                      \<and> dict_at h' c = Some \<lparr>role_obj = r, distance = Some e\<rparr>)))
         \<and> (\<not> personalized res \<longrightarrow>
               h' = h \<and> (\<forall>c \<in> set (roles res). c \<in> set (all_roles_refs db)
                            \<and> (\<exists>r. dict_at h' c = Some \<lparr>role_obj = r, distance = None\<rparr>)))"
proof -
  let ?refs = "all_roles_refs db"
  let ?goal = ?thesis
  have refs: "\<forall>a \<in> set ?refs. \<exists>r. dict_at h a = Some \<lparr>role_obj = r, distance = None\<rparr>"
    using assms(1) by (simp add: wf_store_def)
  have rnd: ?goal if run: "random_roles_st h db cnt g = Inr (res, h')"
  proof -
    from run obtain ys g1 where
      s: "random_sample ?refs (min cnt (int (length ?refs))) g = Inr (ys, g1)"
      and res: "res = \<lparr>roles = ys, personalized = False, current_role = None, edge_case = None\<rparr>"
      and h': "h' = h"
      by (auto simp: random_roles_st_def split: sum.splits)
    from s have "0 \<le> min cnt (int (length ?refs))"
      by (auto simp: random_sample_def split: if_splits)
    from random_sample_ok [OF this, of ?refs g] s have "mset ys \<subseteq># mset ?refs" by auto
    then have "set ys \<subseteq> set ?refs" by (metis set_mset_mono set_mset_mset)
    with refs res h' show ?thesis by auto
  qed
  have pers: ?goal
    if sel: "select_roles_st h0 cl od g = Inr (sl, h1)" and od: "od < length h0"
      and pre0: "prefix h h0"
      and out: "roles_with_distance_st ?refs (slice_to (list_at h1 sl) cnt) h1 = (rs, h')"
      and res: "personalized res" "roles res = rs"
    for h0 cl od sl h1 rs
  proof -
    from store_after_selection [OF od sel] have "prefix h0 h1" by simp
    with pre0 have "prefix h h1" by (rule prefix_order.trans)
    from copies_of_catalog [OF refs this out] res show ?thesis by simp
  qed
  have dbp: ?goal if run: "get_roles_from_database_st h db n cnt g = Inr (res, h')" for n
  proof (cases "overlap_refs db (the (normalized_index db n))")
    case None
    with run show ?thesis by (auto simp: get_roles_from_database_st_def)
  next
    case (Some p)
    obtain cl od where p: "p = (cl, od)" by (cases p)
    from assms(1) Some p have od: "od < length h" by (auto simp: wf_store_def)
    from run Some p obtain sl h1 rs where
      sel: "select_roles_st h cl od g = Inr (sl, h1)"
      and out: "roles_with_distance_st ?refs (slice_to (list_at h1 sl) cnt) h1 = (rs, h')"
      and res: "personalized res" "roles res = rs"
      by (auto simp: get_roles_from_database_st_def Let_def split: sum.splits prod.splits)
    have "prefix h h" by simp
    then show ?thesis by (rule pers [OF sel od _ out res])
  qed
  have mp: ?goal if run: "get_roles_from_metrics_st h db ms cr cnt g = Inr (res, h')" for ms cr
  proof -
    let ?v = "(metrics_get ms ''technical'', metrics_get ms ''creative'',
               metrics_get ms ''business'', metrics_get ms ''customer'')"
    from on_fly_st_eq [of h db ?v] obtain cl od where
      ov: "calculate_overlaps_on_fly_st h db ?v
             = ((length h, length h + 1), h @ [Entry_list cl, Entry_list od])" by blast
    let ?h0 = "h @ [Entry_list cl, Entry_list od]"
    from run ov obtain sl h1 rs where
      sel: "select_roles_st ?h0 (length h) (length h + 1) g = Inr (sl, h1)"
      and out: "roles_with_distance_st ?refs (slice_to (list_at h1 sl) cnt) h1 = (rs, h')"
      and res: "personalized res" "roles res = rs"
      by (auto simp: get_roles_from_metrics_st_def Let_def split: sum.splits prod.splits)
    have od: "length h + 1 < length ?h0" by simp
    have "prefix h ?h0" by simp
    then show ?thesis by (rule pers [OF sel od _ out res])
  qed
  from assms(2) rnd dbp mp show ?thesis
    by (auto simp: get_personalized_roles_st_def Let_def split: option.splits if_splits)
qed


theorem catalog_not_mutated_witness:
  "wf_store example_store example_refs
   \<and> get_personalized_roles_st example_store example_refs (Some ''Data Analyst'') None 27 []
        = Inr (example_answer, example_store_after)
   \<and> prefix example_store example_store_after
   \<and> personalized example_answer \<and> roles example_answer = [7, 8]
   \<and> length example_store = 4
   \<and> dict_at example_store 1
        = Some \<lparr>role_obj = plain_role ''UX Designer'', distance = None\<rparr>
   \<and> dict_at example_store_after 1
        = Some \<lparr>role_obj = plain_role ''UX Designer'', distance = None\<rparr>
   \<and> dict_at example_store_after 7
        = Some \<lparr>role_obj = plain_role ''UX Designer'', distance = Some 0\<rparr>
   \<and> dict_at example_store_after 8
        = Some \<lparr>role_obj = plain_role ''UX Designer'', distance = Some 0\<rparr>"
proof -
  from catalog_not_mutated [OF example_wf example_run]
  have p: "prefix example_store example_store_after" by (rule conjunct1)
  have "dict_at example_store_after 1 = dict_at example_store 1"
    using p by (rule prefix_dict_at) (simp add: example_store_def)
  moreover have "dict_at example_store 1
        = Some \<lparr>role_obj = plain_role ''UX Designer'', distance = None\<rparr>"
    by (simp add: dict_at_def example_store_def)
  moreover have "dict_at example_store_after 7
        = Some \<lparr>role_obj = plain_role ''UX Designer'', distance = Some 0\<rparr>"
    "dict_at example_store_after 8
        = Some \<lparr>role_obj = plain_role ''UX Designer'', distance = Some 0\<rparr>"
    by (simp_all add: dict_at_def example_store_after_def example_store_def)
  moreover have "length example_store = 4" by (simp add: example_store_def)
  ultimately show ?thesis
    using p example_wf example_run by (simp add: example_answer_def)
qed

text \<open>
  The store model computes what the value model computes: it raises when the value
  model raises, and otherwise the dictionaries at the references of its answer, read in
  the store it returns, are the role records of the value model's answer.
\<close>

lemma sample_pool_map:
  "k \<le> length pool \<Longrightarrow>
     sample_pool (map f pool) k g
       = (map f (fst (sample_pool pool k g)), snd (sample_pool pool k g))"
proof (induction k arbitrary: pool g)
  case 0
  then show ?case by simp
next
  case (Suc k)
  obtain j g1 where r: "randbelow (length pool) g = (j, g1)" by force
  from Suc.prems have pos: "0 < length pool" by auto
  then have ne: "pool \<noteq> []" by auto
  from randbelow_less [OF pos, of g] r have j: "j < length pool" by simp
  let ?pool' = "butlast (pool[j := last pool])"
  have k: "k \<le> length ?pool'" using Suc.prems j by simp
  have m: "butlast ((map f pool)[j := last (map f pool)]) = map f ?pool'"
    using ne by (simp add: last_map map_update map_butlast)
  show ?case
    using r j Suc.IH [OF k, of g1]
    by (simp add: m split: prod.splits)
qed

lemma random_sample_map:
  "random_sample (map f xs) k g
     = (case random_sample xs k g of Inl e \<Rightarrow> Inl e | Inr (ys, g') \<Rightarrow> Inr (map f ys, g'))"
proof (cases "0 \<le> k \<and> k \<le> int (length xs)")
  case True
  then have "nat k \<le> length xs" by linarith
  from sample_pool_map [OF this, of f g] True show ?thesis
    by (simp add: random_sample_def split: prod.splits)
next
  case False
  then show ?thesis by (auto simp: random_sample_def)
qed

lemma map_filter_all_Some:
  "\<forall>a \<in> set xs. f a = Some (d a) \<Longrightarrow> List.map_filter f xs = map d xs"
  by (induction xs) simp_all

lemma map_filter_of_Some: "map f xs = map Some ys \<Longrightarrow> List.map_filter f xs = ys"
  by (induction xs arbitrary: ys) auto


lemma map_filter_agree:
  "\<forall>a \<in> set xs. f a = g a \<Longrightarrow> List.map_filter f xs = List.map_filter g xs"
  by (induction xs) (auto split: option.splits)

lemma find_role_Cons:
  "find_role h (a # refs) nm =
     (case dict_at h a of
        None \<Rightarrow> find_role h refs nm
      | Some d \<Rightarrow> if name (role_obj d) = nm then Some (a, d) else find_role h refs nm)"
  by (simp add: find_role_def split: option.splits)

lemma find_role_refines:
  assumes "\<forall>a \<in> set refs. \<exists>r. dict_at h a = Some \<lparr>role_obj = r, distance = None\<rparr>"
  shows "(case find_role h refs nm of None \<Rightarrow> None
          | Some (a, d) \<Rightarrow> Some (role_obj d))
         = find (\<lambda>r. name r = nm) (map role_obj (List.map_filter (dict_at h) refs))"
  using assms
proof (induction refs)
  case Nil
  then show ?case by (simp add: find_role_def)
next
  case (Cons a refs)
  then obtain r where "dict_at h a = Some \<lparr>role_obj = r, distance = None\<rparr>" by auto
  with Cons show ?case by (simp add: find_role_Cons)
qed

lemma roles_with_distance_st_refines:
  assumes "\<forall>a \<in> set refs. \<exists>r. dict_at h a = Some \<lparr>role_obj = r, distance = None\<rparr>"
    and "roles_with_distance_st refs sels h = (out, h')"
  shows "map (dict_at h') out
           = map Some (roles_with_distance (map role_obj (List.map_filter (dict_at h) refs)) sels)"
  using assms
proof (induction sels arbitrary: h out h')
  case Nil
  then show ?case by simp
next
  case (Cons sel sels)
  let ?rs = "map role_obj (List.map_filter (dict_at h) refs)"
  note fr = find_role_refines [OF Cons.prems(1), of "entry_name sel"]
  show ?case
  proof (cases "find_role h refs (entry_name sel)")
    case None
    with fr have "find (\<lambda>r. name r = entry_name sel) ?rs = None" by simp
    with None Cons show ?thesis by simp
  next
    case (Some p)
    obtain a d where p: "p = (a, d)" by (cases p)
    from Some p have a: "a \<in> set refs" "dict_at h a = Some d" by (auto dest: find_role_SomeD)
    with Cons.prems(1) obtain r where d: "d = \<lparr>role_obj = r, distance = None\<rparr>" by fastforce
    from fr Some p d have f: "find (\<lambda>r. name r = entry_name sel) ?rs = Some r" by simp
    let ?d' = "\<lparr>role_obj = r, distance = Some (entry_distance sel)\<rparr>"
    let ?h2 = "h @ [Role_dict ?d']"
    obtain rest h3 where run: "roles_with_distance_st refs sels ?h2 = (rest, h3)" by force
    from Cons.prems(2) Some p d run have out: "out = length h # rest" and h': "h' = h3"
      by (simp_all add: alloc_def)
    have valid: "\<forall>a \<in> set refs. a < length h"
      using Cons.prems(1) by (auto dest: dict_at_valid)
    have p2: "prefix h ?h2" by simp
    have same: "\<forall>a \<in> set refs. dict_at ?h2 a = dict_at h a"
      using valid prefix_dict_at [OF p2] by simp
    then have wf2: "\<forall>a \<in> set refs. \<exists>r. dict_at ?h2 a = Some \<lparr>role_obj = r, distance = None\<rparr>"
      using Cons.prems(1) by simp
    have rs2: "List.map_filter (dict_at ?h2) refs = List.map_filter (dict_at h) refs"
      using same by (rule map_filter_agree)
    from Cons.IH [OF wf2 run] rs2
    have ih: "map (dict_at h3) rest = map Some (roles_with_distance ?rs sels)" by simp
    have valid2: "\<forall>a \<in> set refs. a < length ?h2" using valid by auto
    from roles_with_distance_st_frame [OF run valid2] have "prefix ?h2 h3" by simp
    from prefix_dict_at [OF this, of "length h"]
    have "dict_at h3 (length h) = Some ?d'" by (simp add: dict_at_def)
    with ih f show ?thesis unfolding out h' by simp
  qed
qed


lemma catalog_in_extension:
  assumes refs: "\<forall>a \<in> set refs. \<exists>r. dict_at h a = Some \<lparr>role_obj = r, distance = None\<rparr>"
    and pre: "prefix h h1"
  shows "(\<forall>a \<in> set refs. \<exists>r. dict_at h1 a = Some \<lparr>role_obj = r, distance = None\<rparr>)
         \<and> List.map_filter (dict_at h1) refs = List.map_filter (dict_at h) refs"
proof -
  have "\<forall>a \<in> set refs. a < length h" using refs by (auto dest: dict_at_valid)
  then have same: "\<forall>a \<in> set refs. dict_at h1 a = dict_at h a"
    using prefix_dict_at [OF pre] by simp
  then have "List.map_filter (dict_at h1) refs = List.map_filter (dict_at h) refs"
    by (rule map_filter_agree)
  with same refs show ?thesis by simp
qed

lemma personalized_refines:
  assumes refs: "\<forall>a \<in> set refs. \<exists>r. dict_at h a = Some \<lparr>role_obj = r, distance = None\<rparr>"
    and pre: "prefix h h0" and od: "od < length h0"
  shows "(case select_roles_st h0 cl od g of
            Inl e \<Rightarrow> Inl e
          | Inr (selected_roles, h1) \<Rightarrow>
              (let (roles_to_show, h2) =
                     roles_with_distance_st refs (slice_to (list_at h1 selected_roles) cnt) h1
               in Inr (read_answer h2 \<lparr>roles = roles_to_show, personalized = P,
                         current_role = C, edge_case = E\<rparr>)))
         = (case select_roles (list_at h0 cl) (list_at h0 od) g of
              Inl e \<Rightarrow> Inl e
            | Inr selected_roles \<Rightarrow>
                Inr \<lparr>roles = roles_with_distance (map role_obj (List.map_filter (dict_at h) refs))
                              (slice_to selected_roles cnt),
                     personalized = P, current_role = C, edge_case = E\<rparr>)"
proof -
  from select_roles_st_ok [OF od, of cl g]
  obtain sc so xs where x: "select_roles (list_at h0 cl) (list_at h0 od) g = Inr xs"
    "select_roles_st h0 cl od g
       = Inr (length h0 + 2, h0 @ [Entry_list sc, Entry_list so, Entry_list xs])" by blast
  let ?h1 = "h0 @ [Entry_list sc, Entry_list so, Entry_list xs]"
  have l: "list_at ?h1 (length h0 + 2) = xs" by (simp add: list_at_def nth_append)
  have "prefix h0 ?h1" by simp
  with pre have "prefix h ?h1" by (rule prefix_order.trans)
  from catalog_in_extension [OF refs this]
  have wf1: "\<forall>a \<in> set refs. \<exists>r. dict_at ?h1 a = Some \<lparr>role_obj = r, distance = None\<rparr>"
    and rs1: "List.map_filter (dict_at ?h1) refs = List.map_filter (dict_at h) refs" by simp_all
  obtain out h2 where run: "roles_with_distance_st refs (slice_to xs cnt) ?h1 = (out, h2)"
    by force
  from roles_with_distance_st_refines [OF wf1 run] rs1
  have "List.map_filter (dict_at h2) out
          = roles_with_distance (map role_obj (List.map_filter (dict_at h) refs)) (slice_to xs cnt)"
    by (simp add: map_filter_of_Some)
  then show ?thesis
    by (simp only: x l run sum.case prod.case Let_def read_answer_def)
       (simp add: read_answer_def)
qed

lemma random_refines:
  assumes "wf_store h db"
  shows "(case random_roles_st h db cnt g of
            Inl e \<Rightarrow> Inl e | Inr (res, h') \<Rightarrow> Inr (read_answer h' res))
         = random_roles (database_of h db) cnt g"
proof -
  let ?refs = "all_roles_refs db"
  let ?D = "\<lambda>a. the (dict_at h a)"
  let ?k = "min cnt (int (length ?refs))"
  have refs: "\<forall>a \<in> set ?refs. \<exists>r. dict_at h a = Some \<lparr>role_obj = r, distance = None\<rparr>"
    using assms by (simp add: wf_store_def)
  then have some: "\<forall>a \<in> set ?refs. dict_at h a = Some (?D a)" by auto
  have plain: "\<forall>a \<in> set ?refs. \<lparr>role_obj = role_obj (?D a), distance = None\<rparr> = ?D a"
    using refs by auto
  have rs: "all_roles (database_of h db) = map (\<lambda>a. role_obj (?D a)) ?refs"
    using map_filter_all_Some [OF some] by (simp add: database_of_def)
  show ?thesis
  proof (cases "random_sample ?refs ?k g")
    case (Inl e)
    then show ?thesis
      by (simp add: random_roles_st_def random_roles_def rs random_sample_map)
  next
    case (Inr p)
    obtain ys g1 where p: "p = (ys, g1)" by (cases p)
    from Inr have "0 \<le> ?k" by (auto simp: random_sample_def split: if_splits)
    from random_sample_ok [OF this, of ?refs g] Inr p have "mset ys \<subseteq># mset ?refs" by auto
    then have sub: "set ys \<subseteq> set ?refs" by (metis set_mset_mono set_mset_mset)
    have "List.map_filter (dict_at h) ys = map ?D ys"
      using some sub by (intro map_filter_all_Some) auto
    moreover have "map (\<lambda>a. \<lparr>role_obj = role_obj (?D a), distance = None\<rparr>) ys = map ?D ys"
      using plain sub by (intro map_cong) auto
    ultimately show ?thesis
      using Inr p
      by (simp add: random_roles_st_def random_roles_def rs random_sample_map read_answer_def
          comp_def)
  qed
qed

lemma store_refines_values:
  assumes "wf_store h db"
  shows "(case get_personalized_roles_st h db cur m cnt g of
            Inl e \<Rightarrow> Inl e | Inr (res, h') \<Rightarrow> Inr (read_answer h' res))
         = get_personalized_roles (database_of h db) cur m cnt g"
proof -
  let ?refs = "all_roles_refs db"
  let ?read = "\<lambda>x. case x of Inl e \<Rightarrow> Inl e | Inr (res, h') \<Rightarrow> Inr (read_answer h' res)"
  have refs: "\<forall>a \<in> set ?refs. \<exists>r. dict_at h a = Some \<lparr>role_obj = r, distance = None\<rparr>"
    using assms by (simp add: wf_store_def)
  have rs: "all_roles (database_of h db) = map role_obj (List.map_filter (dict_at h) ?refs)"
    by (simp add: database_of_def)
  have dbp: "?read (get_roles_from_database_st h db n cnt g)
               = get_roles_from_database (database_of h db) n cnt g" for n
  proof (cases "overlap_refs db (the (normalized_index db n))")
    case None
    then show ?thesis
      by (simp add: get_roles_from_database_st_def get_roles_from_database_def database_of_def
          read_answer_def)
  next
    case (Some p)
    obtain cl od where p: "p = (cl, od)" by (cases p)
    from assms Some p have od: "od < length h" by (auto simp: wf_store_def)
    have "prefix h h" by simp
    from personalized_refines [OF refs this od, where cl = cl and g = g and cnt = cnt
        and P = True and C = "Some (the (normalized_index db n))" and E = None]
    show ?thesis
      using Some p
      by (simp add: get_roles_from_database_st_def get_roles_from_database_def database_of_def
          Let_def split: sum.splits prod.splits)
  qed
  have mp: "?read (get_roles_from_metrics_st h db ms cr cnt g)
              = get_roles_from_metrics (database_of h db) ms cr cnt g" for ms cr
  proof -
    let ?v = "(metrics_get ms ''technical'', metrics_get ms ''creative'',
               metrics_get ms ''business'', metrics_get ms ''customer'')"
    from on_fly_st_eq [of h db ?v] obtain cl od where
      ov: "calculate_overlaps_on_fly_st h db ?v
             = ((length h, length h + 1), h @ [Entry_list cl, Entry_list od])"
      "calculate_overlaps_on_fly (database_of h db) ?v = \<lparr>close = cl, oddball = od\<rparr>" by blast
    let ?h0 = "h @ [Entry_list cl, Entry_list od]"
    have od: "length h + 1 < length ?h0" by simp
    have pre: "prefix h ?h0" by simp
    have l: "list_at ?h0 (length h) = cl" "list_at ?h0 (Suc (length h)) = od"
      by (simp_all add: list_at_def nth_append)
    from personalized_refines [OF refs pre od, where cl = "length h" and g = g and cnt = cnt
        and P = True and C = "Some cr" and E = "Some True"]
    show ?thesis
      using ov
      by (simp add: get_roles_from_metrics_st_def get_roles_from_metrics_def Let_def l rs
          split: sum.splits prod.splits)
  qed
  show ?thesis
    using random_refines [OF assms, of cnt g] dbp mp
    by (simp add: get_personalized_roles_st_def get_personalized_roles_def Let_def
        database_of_def [THEN arg_cong, of roles_normalized]
        split: option.splits)
qed


section \<open>Fuzzy resolution of a role name\<close>


lemma b2j_sound: "j \<in> set (b2j b elt) \<Longrightarrow> j < length b \<and> b ! j = elt"
  by (auto simp: b2j_def Let_def split: if_splits)

lemma row_ok_empty: "row_ok a b alo blo bhi n (\<lambda>j. 0)"
  by (simp add: row_ok_def)

lemma row_ok_update:
  assumes cur: "row_ok a b alo blo bhi (Suc n) new"
    and prev: "row_ok a b alo blo bhi n old"
    and j: "blo \<le> j" "j < bhi" "b ! j = a ! (alo + n)"
    and k: "k = (if j = 0 then 0 else old (j - 1)) + 1"
  shows "row_ok a b alo blo bhi (Suc n) (new(j := k))
         \<and> sound a b alo (alo + Suc n) blo bhi (alo + n + 1 - k, j + 1 - k, k)"
proof -
  let ?p = "if j = 0 then 0 else old (j - 1)"
  have kp: "k = ?p + 1" by (rule k)
  have bounds: "k \<le> Suc n \<and> k \<le> j + 1 - blo
      \<and> (\<forall>t < k. a ! (alo + Suc n - k + t) = b ! (j + 1 - k + t))"
  proof (cases "?p = 0")
    case True
    then have "k = 1" using kp by simp
    then show ?thesis using j by simp
  next
    case False
    then have j0: "j \<noteq> 0" and p: "old (j - 1) \<noteq> 0" "?p = old (j - 1)" by (auto split: if_splits)
    from prev p(1) have o: "old (j - 1) \<le> n" "old (j - 1) \<le> j - 1 + 1 - blo" "blo \<le> j - 1"
      "\<forall>t < old (j - 1). a ! (alo + n - old (j - 1) + t) = b ! (j - 1 + 1 - old (j - 1) + t)"
      by (auto simp: row_ok_def)
    have k1: "k = old (j - 1) + 1" using kp p(2) by simp
    have "a ! (alo + Suc n - k + t) = b ! (j + 1 - k + t)" if t: "t < k" for t
    proof (cases "t < old (j - 1)")
      case True
      with o(4) have "a ! (alo + n - old (j - 1) + t) = b ! (j - 1 + 1 - old (j - 1) + t)" by simp
      moreover have "alo + Suc n - k = alo + n - old (j - 1)" using k1 o(1) by simp
      moreover have "j + 1 - k = j - 1 + 1 - old (j - 1)" using k1 o(2) j0 by simp
      ultimately show ?thesis by simp
    next
      case False
      with t k1 have te: "t = old (j - 1)" by simp
      have "alo + Suc n - k + t = alo + n" using k1 te o(1) by simp
      moreover have "j + 1 - k + t = j" using k1 te o(2,3) j0 by simp
      ultimately show ?thesis using j(3) by simp
    qed
    moreover have "k \<le> Suc n" using k1 o(1) by simp
    moreover have "k \<le> j + 1 - blo" using k1 o(2,3) j0 by simp
    ultimately show ?thesis by simp
  qed
  have kpos: "0 < k" using kp by simp
  have 1: "row_ok a b alo blo bhi (Suc n) (new(j := k))"
    using cur bounds j by (auto simp: row_ok_def)
  have 2: "sound a b alo (alo + Suc n) blo bhi (alo + n + 1 - k, j + 1 - k, k)"
    using bounds j kpos by (auto simp: sound_def)
  from 1 2 show ?thesis ..
qed

lemma inner_loop_inv:
  assumes "row_ok a b alo blo bhi n old"
    and "row_ok a b alo blo bhi (Suc n) new"
    and "sound a b alo (alo + Suc n) blo bhi best"
    and "\<forall>j \<in> set js. b ! j = a ! (alo + n)"
  shows "row_ok a b alo blo bhi (Suc n) (fst (inner_loop blo bhi (alo + n) old js (new, best)))
         \<and> sound a b alo (alo + Suc n) blo bhi
              (snd (inner_loop blo bhi (alo + n) old js (new, best)))"
  using assms
proof (induction js arbitrary: new best)
  case Nil
  then show ?case by simp
next
  case (Cons j js)
  obtain besti bestj bestsize where best: "best = (besti, bestj, bestsize)" by (cases best)
  have js: "\<forall>j \<in> set js. b ! j = a ! (alo + n)" using Cons.prems(4) by simp
  let ?k = "(if j = 0 then 0 else old (j - 1)) + 1"
  let ?run = "\<lambda>st. inner_loop blo bhi (alo + n) old js st"
  consider (skip) "j < blo" | (stop) "\<not> j < blo" "bhi \<le> j"
    | (better) "\<not> j < blo" "\<not> bhi \<le> j" "bestsize < ?k"
    | (same) "\<not> j < blo" "\<not> bhi \<le> j" "\<not> bestsize < ?k" by blast
  then show ?case
  proof cases
    case skip
    then have "inner_loop blo bhi (alo + n) old (j # js) (new, best) = ?run (new, best)"
      unfolding best by (simp only: inner_loop.simps if_True)
    with Cons.IH [OF Cons.prems(1,2,3) js] show ?thesis by (simp only:)
  next
    case stop
    then have "inner_loop blo bhi (alo + n) old (j # js) (new, best) = (new, best)"
      unfolding best by (simp only: inner_loop.simps if_True if_False)
    with Cons.prems(2,3) show ?thesis by (simp only: fst_conv snd_conv)
  next
    case better
    have j: "blo \<le> j" "j < bhi" "b ! j = a ! (alo + n)"
      using better Cons.prems(4) by simp_all
    note upd = row_ok_update [OF Cons.prems(2,1) j refl]
    have u: "row_ok a b alo blo bhi (Suc n) (new(j := ?k))"
      "sound a b alo (alo + Suc n) blo bhi (alo + n + 1 - ?k, j + 1 - ?k, ?k)"
      by (rule upd [THEN conjunct1], rule upd [THEN conjunct2])
    have "inner_loop blo bhi (alo + n) old (j # js) (new, best)
            = ?run (new(j := ?k), alo + n + 1 - ?k, j + 1 - ?k, ?k)"
      unfolding best using better
      by (simp only: inner_loop.simps if_True if_False Let_def)
    with Cons.IH [OF Cons.prems(1) u(1) u(2) js] show ?thesis by (simp only:)
  next
    case same
    have j: "blo \<le> j" "j < bhi" "b ! j = a ! (alo + n)"
      using same Cons.prems(4) by simp_all
    note upd = row_ok_update [OF Cons.prems(2,1) j refl]
    have u: "row_ok a b alo blo bhi (Suc n) (new(j := ?k))"
      by (rule upd [THEN conjunct1])
    have "inner_loop blo bhi (alo + n) old (j # js) (new, best)
            = ?run (new(j := ?k), best)"
      unfolding best using same
      by (simp only: inner_loop.simps if_True if_False Let_def)
    with Cons.IH [OF Cons.prems(1) u Cons.prems(3) js] show ?thesis by (simp only:)
  qed
qed

lemma outer_inv:
  assumes "blo \<le> bhi"
  shows "row_ok a b alo blo bhi n
           (fst (fold (outer_step a b blo bhi) [alo..<alo + n] (\<lambda>j. 0, alo, blo, 0)))
         \<and> sound a b alo (alo + n) blo bhi
           (snd (fold (outer_step a b blo bhi) [alo..<alo + n] (\<lambda>j. 0, alo, blo, 0)))"
proof (induction n)
  case 0
  then show ?case using assms by (simp add: row_ok_def sound_def)
next
  case (Suc n)
  let ?st = "fold (outer_step a b blo bhi) [alo..<alo + n] (\<lambda>j. 0, alo, blo, 0)"
  obtain besti bestj bestsize where best: "snd ?st = (besti, bestj, bestsize)"
    by (cases "snd ?st")
  from Suc have old: "row_ok a b alo blo bhi n (fst ?st)"
    and s: "sound a b alo (alo + n) blo bhi (snd ?st)" by simp_all
  have s': "sound a b alo (alo + Suc n) blo bhi (snd ?st)"
    using s best by (simp add: sound_def)
  have js: "\<forall>j \<in> set (b2j b (a ! (alo + n))). b ! j = a ! (alo + n)"
    by (simp add: b2j_sound)
  have "fold (outer_step a b blo bhi) [alo..<alo + Suc n] (\<lambda>j. 0, alo, blo, 0)
          = outer_step a b blo bhi (alo + n) ?st" by simp
  also have "\<dots> = inner_loop blo bhi (alo + n) (fst ?st) (b2j b (a ! (alo + n)))
                       (\<lambda>j. 0, snd ?st)" by (simp only: outer_step_def)
  finally show ?case
    using inner_loop_inv [OF old row_ok_empty s' js] by (simp only:)
qed

lemma extend_left_sound:
  "sound a b alo ahi blo bhi m \<Longrightarrow> sound a b alo ahi blo bhi (extend_left a b alo blo m)"
proof (induction a b alo blo m rule: extend_left.induct)
  case (1 a b alo blo besti bestj bestsize)
  note unfold = extend_left.simps [of a b alo blo besti bestj bestsize]
  show ?case
  proof (cases "alo < besti \<and> blo < bestj \<and> a ! (besti - 1) = b ! (bestj - 1)")
    case True
    from "1.prems" have p: "besti + bestsize \<le> ahi" "bestj + bestsize \<le> bhi"
      "\<forall>t < bestsize. a ! (besti + t) = b ! (bestj + t)" by (simp_all add: sound_def)
    have "a ! (besti - 1 + t) = b ! (bestj - 1 + t)" if t: "t < bestsize + 1" for t
    proof (cases t)
      case 0
      with True show ?thesis by simp
    next
      case (Suc u)
      with t p(3) have "a ! (besti + u) = b ! (bestj + u)" by simp
      moreover have "besti - 1 + t = besti + u" "bestj - 1 + t = bestj + u"
        using True Suc by simp_all
      ultimately show ?thesis by simp
    qed
    moreover have "alo \<le> besti - 1" "blo \<le> bestj - 1" using True by linarith+
    moreover have "besti - 1 + (bestsize + 1) \<le> ahi" "bestj - 1 + (bestsize + 1) \<le> bhi"
      using True p(1,2) by linarith+
    ultimately have "sound a b alo ahi blo bhi (besti - 1, bestj - 1, bestsize + 1)"
      unfolding sound_def by (simp only: prod.case) blast
    from "1.IH" [OF True this] show ?thesis
      by (simp only: unfold eqTrueI [OF True] if_True)
  next
    case False
    with "1.prems" show ?thesis by (simp only: unfold eq_False [THEN iffD2, OF False] if_False)
  qed
qed

lemma extend_right_sound:
  "sound a b alo ahi blo bhi m \<Longrightarrow> sound a b alo ahi blo bhi (extend_right a b ahi bhi m)"
proof (induction a b ahi bhi m rule: extend_right.induct)
  case (1 a b ahi bhi besti bestj bestsize)
  note unfold = extend_right.simps [of a b ahi bhi besti bestj bestsize]
  show ?case
  proof (cases "besti + bestsize < ahi \<and> bestj + bestsize < bhi
                 \<and> a ! (besti + bestsize) = b ! (bestj + bestsize)")
    case True
    have "sound a b alo ahi blo bhi (besti, bestj, bestsize + 1)"
      using True "1.prems" by (auto simp: sound_def less_Suc_eq)
    from "1.IH" [OF True this] show ?thesis
      by (simp only: unfold eqTrueI [OF True] if_True)
  next
    case False
    with "1.prems" show ?thesis by (simp only: unfold eq_False [THEN iffD2, OF False] if_False)
  qed
qed

lemma find_longest_match_sound:
  assumes "alo \<le> ahi" "blo \<le> bhi"
  shows "sound a b alo ahi blo bhi (find_longest_match a b alo ahi blo bhi)"
proof -
  from assms(1) obtain n where n: "ahi = alo + n" by (auto simp: le_iff_add)
  from outer_inv [OF assms(2), of a b alo n]
  have "sound a b alo ahi blo bhi
          (snd (fold (outer_step a b blo bhi) [alo..<ahi] (\<lambda>j. 0, alo, blo, 0)))"
    by (simp add: n)
  then show ?thesis
    unfolding find_longest_match_def by (intro extend_right_sound extend_left_sound)
qed

lemma inner_loop_empty_window:
  "bhi < blo \<Longrightarrow> snd (inner_loop blo bhi i old js (new, best)) = best"
proof (induction js arbitrary: new)
  case Nil
  then show ?case by simp
next
  case (Cons j js)
  obtain besti bestj bestsize where best: "best = (besti, bestj, bestsize)" by (cases best)
  from Cons.prems have "j < blo \<or> bhi \<le> j" by linarith
  then show ?case
  proof
    assume "j < blo"
    then show ?thesis using Cons unfolding best by (simp only: inner_loop.simps if_True)
  next
    assume j: "bhi \<le> j"
    show ?thesis
    proof (cases "j < blo")
      case True
      then show ?thesis using Cons unfolding best by (simp only: inner_loop.simps if_True)
    next
      case False
      with j show ?thesis unfolding best by (simp only: inner_loop.simps if_True if_False snd_conv)
    qed
  qed
qed

lemma outer_empty_window:
  "bhi < blo \<Longrightarrow> snd (fold (outer_step a b blo bhi) is (m, best)) = best"
proof (induction "is" arbitrary: m)
  case Nil
  then show ?case by simp
next
  case (Cons i "is")
  obtain m' where "outer_step a b blo bhi i (m, best) = (m', best)"
    using inner_loop_empty_window [OF Cons.prems, of i m "b2j b (a ! i)" "\<lambda>j. 0" best]
    by (cases "outer_step a b blo bhi i (m, best)") (simp add: outer_step_def)
  with Cons show ?case by simp
qed

lemma find_longest_match_bounds:
  assumes "find_longest_match a b alo ahi blo bhi = (i, j, k)" "k \<noteq> 0"
  shows "alo \<le> i \<and> i + k \<le> ahi \<and> blo \<le> j \<and> j + k \<le> bhi"
proof (cases "alo \<le> ahi \<and> blo \<le> bhi")
  case True
  with find_longest_match_sound [of alo ahi blo bhi a b] assms(1) show ?thesis
    by (simp add: sound_def)
next
  case False
  let ?start = "(alo, blo, 0 :: nat)"
  have best: "snd (fold (outer_step a b blo bhi) [alo..<ahi] (\<lambda>j. 0, ?start)) = ?start"
  proof (cases "alo \<le> ahi")
    case True
    with False have "bhi < blo" by simp
    then show ?thesis by (rule outer_empty_window)
  next
    case False
    then show ?thesis by simp
  qed
  have l: "extend_left a b alo blo ?start = ?start"
    by (simp only: extend_left.simps [of a b alo blo alo blo 0]) simp
  have "\<not> (alo + 0 < ahi \<and> blo + 0 < bhi \<and> a ! (alo + 0) = b ! (blo + 0))"
    using False by auto
  then have r: "extend_right a b ahi bhi ?start = ?start"
    by (simp only: extend_right.simps [of a b ahi bhi alo blo 0] if_False)
  have "find_longest_match a b alo ahi blo bhi = ?start"
    by (simp only: find_longest_match_def best l r)
  with assms show ?thesis by simp
qed

termination matching_blocks
proof (relation "measure (\<lambda>(a, b, alo, ahi, blo, bhi). ahi - alo)", goal_cases)
  case 1
  show ?case by simp
next
  case (2 a b alo ahi blo bhi i y j k)
  then have f: "find_longest_match a b alo ahi blo bhi = (i, j, k)" and k: "k \<noteq> 0" by simp_all
  from find_longest_match_bounds [OF f k] have "alo \<le> i" by simp
  moreover from 2 have "i + k < ahi" by simp
  ultimately have "ahi - (i + k) < ahi - alo" using k by linarith
  then show ?case by simp
next
  case (3 a b alo ahi blo bhi i y j k)
  then have f: "find_longest_match a b alo ahi blo bhi = (i, j, k)" and k: "k \<noteq> 0" by simp_all
  from find_longest_match_bounds [OF f k] have "i + k \<le> ahi" by simp
  moreover from 3 have "alo < i" by simp
  ultimately have "i - alo < ahi - alo" using k by linarith
  then show ?case by simp
qed

declare matching_blocks.simps [simp del]

lemma inter_sizes_add:
  "size (A1 \<inter># B1) + size (A2 \<inter># B2) \<le> size ((A1 + A2) \<inter># (B1 + B2))"
proof -
  have "(A1 \<inter># B1) + (A2 \<inter># B2) \<subseteq># A1 + A2"
    by (intro mset_subset_eq_mono_add) simp_all
  moreover have "(A1 \<inter># B1) + (A2 \<inter># B2) \<subseteq># B1 + B2"
    by (intro mset_subset_eq_mono_add) simp_all
  ultimately have "(A1 \<inter># B1) + (A2 \<inter># B2) \<subseteq># (A1 + A2) \<inter># (B1 + B2)" by simp
  from size_mset_mono [OF this] show ?thesis by simp
qed

lemma window_split:
  assumes "lo \<le> mid" "mid \<le> hi"
  shows "take (hi - lo) (drop lo xs) = take (mid - lo) (drop lo xs) @ take (hi - mid) (drop mid xs)"
proof -
  have "hi - lo = (mid - lo) + (hi - mid)" using assms by simp
  then have "take (hi - lo) (drop lo xs)
      = take (mid - lo) (drop lo xs) @ take (hi - mid) (drop (mid - lo) (drop lo xs))"
    by (simp only: take_add)
  moreover have "drop (mid - lo) (drop lo xs) = drop mid xs" using assms(1) by simp
  ultimately show ?thesis by simp
qed

lemma sound_block_equal:
  assumes "sound a b alo ahi blo bhi (i, j, k)" "ahi \<le> length a" "bhi \<le> length b"
  shows "take k (drop i a) = take k (drop j b)"
proof (rule nth_equalityI)
  from assms have "k \<le> length a - i" "k \<le> length b - j" by (auto simp: sound_def)
  then show "length (take k (drop i a)) = length (take k (drop j b))" by simp
next
  fix t assume "t < length (take k (drop i a))"
  then have t: "t < k" by simp
  with assms show "take k (drop i a) ! t = take k (drop j b) ! t"
    by (simp add: sound_def)
qed

lemma blocks_bound:
  assumes "alo \<le> ahi" "ahi \<le> length a" "blo \<le> bhi" "bhi \<le> length b"
  shows "sum_list (map (\<lambda>triple. snd (snd triple)) (matching_blocks a b alo ahi blo bhi))
           \<le> size (mset (take (ahi - alo) (drop alo a)) \<inter># mset (take (bhi - blo) (drop blo b)))"
  using assms
proof (induction a b alo ahi blo bhi rule: matching_blocks.induct)
  case (1 a b alo ahi blo bhi)
  let ?W = "\<lambda>xs lo hi. mset (take (hi - lo) (drop lo xs))"
  let ?tot = "\<lambda>alo ahi blo bhi.
     sum_list (map (\<lambda>triple. snd (snd triple)) (matching_blocks a b alo ahi blo bhi))"
  obtain i j k where f: "find_longest_match a b alo ahi blo bhi = (i, j, k)"
    by (cases "find_longest_match a b alo ahi blo bhi")
  note unfold = matching_blocks.simps [of a b alo ahi blo bhi]
  show ?case
  proof (cases "k = 0")
    case True
    with f show ?thesis by (simp add: unfold)
  next
    case False
    from find_longest_match_sound [OF "1.prems"(1,3), of a b] f
    have s: "sound a b alo ahi blo bhi (i, j, k)" by simp
    then have b: "alo \<le> i" "i + k \<le> ahi" "blo \<le> j" "j + k \<le> bhi" by (simp_all add: sound_def)
    define cR where "cR \<longleftrightarrow> i + k < ahi \<and> j + k < bhi"
    define cL where "cL \<longleftrightarrow> alo < i \<and> blo < j"
    let ?R = "if cR then ?tot (i + k) ahi (j + k) bhi else 0"
    let ?L = "if cL then ?tot alo i blo j else 0"
    have "matching_blocks a b alo ahi blo bhi
            = (i, j, k)
              # (if cR then matching_blocks a b (i + k) ahi (j + k) bhi else [])
              @ (if cL then matching_blocks a b alo i blo j else [])"
      using f False by (simp add: unfold cR_def cL_def)
    then have tot: "?tot alo ahi blo bhi = k + ?R + ?L"
      by (cases cR; cases cL) simp_all
    have R: "?R \<le> size (?W a (i + k) ahi \<inter># ?W b (j + k) bhi)"
    proof (cases cR)
      case True
      then have c: "i + k < ahi \<and> j + k < bhi" by (simp add: cR_def)
      from "1.IH"(1) [OF f [symmetric] refl False c b(2) "1.prems"(2) b(4) "1.prems"(4)] True
      show ?thesis by simp
    next
      case False
      then show ?thesis by simp
    qed
    have L: "?L \<le> size (?W a alo i \<inter># ?W b blo j)"
    proof (cases cL)
      case True
      then have c: "alo < i \<and> blo < j" by (simp add: cL_def)
      from b "1.prems"(2,4) have le: "i \<le> length a" "j \<le> length b" by linarith+
      from "1.IH"(2) [OF f [symmetric] refl False c b(1) le(1) b(3) le(2)] True
      show ?thesis by simp
    next
      case False
      then show ?thesis by simp
    qed
    have mid: "take k (drop i a) = take k (drop j b)"
      using s "1.prems"(2,4) by (rule sound_block_equal)
    have wa: "?W a alo ahi = ?W a alo i + (mset (take k (drop i a)) + ?W a (i + k) ahi)"
      using window_split [of alo i ahi a] window_split [of i "i + k" ahi a] b by simp
    have wb: "?W b blo bhi = ?W b blo j + (mset (take k (drop j b)) + ?W b (j + k) bhi)"
      using window_split [of blo j bhi b] window_split [of j "j + k" bhi b] b by simp
    have len: "size (mset (take k (drop i a))) = k"
      using b "1.prems"(2) by simp
    let ?M = "mset (take k (drop i a))"
    have "size (?W a alo i \<inter># ?W b blo j) + (size (?M \<inter># ?M)
             + size (?W a (i + k) ahi \<inter># ?W b (j + k) bhi))
          \<le> size (?W a alo ahi \<inter># ?W b blo bhi)"
      unfolding wa wb mid [symmetric]
      using inter_sizes_add [of "?W a alo i" "?W b blo j" "?M + ?W a (i + k) ahi"
          "?M + ?W b (j + k) bhi"]
        inter_sizes_add [of ?M ?M "?W a (i + k) ahi" "?W b (j + k) bhi"]
      by linarith
    with R L len tot show ?thesis by simp
  qed
qed



lemma inter_add_count:
  "add_mset x P \<inter># B = (if count P x < count B x then add_mset x (P \<inter># B) else P \<inter># B)"
  by (rule multiset_eqI) auto

lemma quick_fold:
  "fold (quick_step b) p (Map.empty, 0)
     = ((\<lambda>elt. if elt \<in> set p then Some (int (count_list b elt) - int (count_list p elt))
               else None),
        size (mset p \<inter># mset b))"
proof (induction p rule: rev_induct)
  case Nil
  then show ?case by simp
next
  case (snoc x p)
  let ?numb = "int (count_list b x) - int (count_list p x)"
  have numb: "(case (if x \<in> set p then Some ?numb else None) of
                 Some n \<Rightarrow> n | None \<Rightarrow> int (count_list b x)) = ?numb"
    by (simp add: count_list_0_iff)
  have m: "size (mset (p @ [x]) \<inter># mset b)
             = (if 0 < ?numb then size (mset p \<inter># mset b) + 1 else size (mset p \<inter># mset b))"
    by (simp add: inter_add_count count_mset)
  have av: "(\<lambda>elt. if elt \<in> set p then Some (int (count_list b elt) - int (count_list p elt))
               else None)(x \<mapsto> ?numb - 1)
          = (\<lambda>elt. if elt \<in> set (p @ [x])
                    then Some (int (count_list b elt) - int (count_list (p @ [x]) elt))
                    else None)"
    by (rule ext) auto
  have "fold (quick_step b) (p @ [x]) (Map.empty, 0)
          = quick_step b x (fold (quick_step b) p (Map.empty, 0))" by simp
  also have "\<dots> = quick_step b x
      (\<lambda>elt. if elt \<in> set p then Some (int (count_list b elt) - int (count_list p elt))
             else None,
       size (mset p \<inter># mset b))" by (simp only: snoc.IH)
  also have "\<dots> = (\<lambda>elt. if elt \<in> set (p @ [x])
                    then Some (int (count_list b elt) - int (count_list (p @ [x]) elt))
                    else None,
                  size (mset (p @ [x]) \<inter># mset b))"
    by (simp only: quick_step_def prod.case numb Let_def m av)
  finally show ?case .
qed

lemma quick_matches:
  "snd (fold (quick_step b) a (Map.empty, 0)) = size (mset a \<inter># mset b)"
  by (simp add: quick_fold)

lemma calculate_ratio_mono: "m \<le> m' \<Longrightarrow> calculate_ratio m t \<le> calculate_ratio m' t"
  by (simp add: calculate_ratio_def divide_right_mono)

lemma non_adjacent_sum:
  "sum_list (map (\<lambda>triple. snd (snd triple)) (non_adjacent m ms))
     = snd (snd m) + sum_list (map (\<lambda>triple. snd (snd triple)) ms)"
  by (induction m ms rule: non_adjacent.induct) simp_all

lemma sum_list_sort:
  fixes f :: "match \<Rightarrow> nat"
  shows "sum_list (map f (sort ms)) = sum_list (map f ms)"
proof -
  have "sum_mset (mset (map f (sort ms))) = sum_mset (mset (map f ms))" by simp
  then show ?thesis by (simp only: sum_mset_sum_list)
qed

lemma get_matching_blocks_sum:
  "sum_list (map (\<lambda>triple. snd (snd triple)) (get_matching_blocks a b))
     = sum_list (map (\<lambda>triple. snd (snd triple)) (matching_blocks a b 0 (length a) 0 (length b)))"
  by (simp add: get_matching_blocks_def non_adjacent_sum sum_list_sort)

lemma ratio_le_quick_ratio: "ratio a b \<le> quick_ratio a b"
proof -
  have "sum_list (map (\<lambda>triple. snd (snd triple)) (get_matching_blocks a b))
          \<le> size (mset a \<inter># mset b)"
    unfolding get_matching_blocks_sum
    using blocks_bound [of 0 "length a" a 0 "length b" b] by simp
  then show ?thesis
    unfolding ratio_def quick_ratio_def quick_matches by (rule calculate_ratio_mono)
qed

lemma quick_ratio_le_real_quick_ratio: "quick_ratio a b \<le> real_quick_ratio a b"
proof -
  have "size (mset a \<inter># mset b) \<le> size (mset a)"
    by (rule size_mset_mono) simp
  moreover have "size (mset a \<inter># mset b) \<le> size (mset b)"
    by (rule size_mset_mono) simp
  ultimately have "size (mset a \<inter># mset b) \<le> min (length a) (length b)" by simp
  then show ?thesis
    unfolding real_quick_ratio_def quick_ratio_def quick_matches by (rule calculate_ratio_mono)
qed

lemma passes_iff:
  "(cutoff \<le> real_quick_ratio x word \<and> cutoff \<le> quick_ratio x word \<and> cutoff \<le> ratio x word)
     = (cutoff \<le> ratio x word)"
  using ratio_le_quick_ratio [of x word] quick_ratio_le_real_quick_ratio [of x word] by auto

lemma fold_max_ge_start:
  "fst e \<le> fst (fold (\<lambda>x best. if tuple_less best x then x else best) es e)"
proof (induction es arbitrary: e)
  case Nil
  then show ?case by simp
next
  case (Cons x es)
  have "fst e \<le> fst (if tuple_less e x then x else e)" by (auto simp: tuple_less_def)
  also have "\<dots> \<le> fst (fold (\<lambda>x best. if tuple_less best x then x else best) es
                         (if tuple_less e x then x else e))" by (rule Cons.IH)
  finally show ?case by simp
qed

lemma fold_max_in:
  "fold (\<lambda>x best. if tuple_less best x then x else best) es e \<in> set (e # es)"
proof (induction es arbitrary: e)
  case Nil
  then show ?case by simp
next
  case (Cons x es)
  from Cons.IH [of "if tuple_less e x then x else e"] show ?case by (auto split: if_splits)
qed

lemma fold_max_ge_all:
  "y \<in> set (e # es) \<Longrightarrow>
     fst y \<le> fst (fold (\<lambda>x best. if tuple_less best x then x else best) es e)"
proof (induction es arbitrary: e)
  case Nil
  then show ?case by simp
next
  case (Cons x es)
  let ?e' = "if tuple_less e x then x else e"
  have e': "fst e \<le> fst ?e'" "fst x \<le> fst ?e'" by (auto simp: tuple_less_def)
  show ?case
  proof (cases "y \<in> set es")
    case True
    then have "y \<in> set (?e' # es)" by simp
    from Cons.IH [OF this] show ?thesis by simp
  next
    case False
    with Cons.prems have "fst y \<le> fst ?e'" using e' by auto
    also have "\<dots> \<le> fst (fold (\<lambda>x best. if tuple_less best x then x else best) es ?e')"
      by (rule fold_max_ge_start)
    finally show ?thesis by simp
  qed
qed

lemma nlargest1_cases:
  "(result = [] \<and> nlargest1 result = [])
   \<or> (\<exists>best \<in> set result. nlargest1 result = [best] \<and> (\<forall>y \<in> set result. fst y \<le> fst best))"
proof (cases result)
  case Nil
  then show ?thesis by (simp add: nlargest1_def)
next
  case (Cons e es)
  let ?best = "fold (\<lambda>x best. if tuple_less best x then x else best) es e"
  have "nlargest1 result = [?best]" using Cons by (simp add: nlargest1_def)
  moreover have "?best \<in> set result" using fold_max_in [of es e] Cons by simp
  moreover have "\<forall>y \<in> set result. fst y \<le> fst ?best"
    using fold_max_ge_all [of _ e es] Cons by simp
  ultimately show ?thesis by blast
qed

lemma get_close_matches_spec:
  assumes "0 \<le> cutoff" "cutoff \<le> 1"
  shows "\<exists>ms. get_close_matches word cands cutoff = Inr ms
           \<and> (if \<exists>x \<in> set cands. cutoff \<le> ratio x word
               then \<exists>best \<in> set cands. ms = [best] \<and> cutoff \<le> ratio best word
                      \<and> (\<forall>x \<in> set cands. ratio x word \<le> ratio best word)
               else ms = [])"
proof -
  let ?pass = "filter (\<lambda>x. cutoff \<le> ratio x word) cands"
  let ?result = "map (\<lambda>x. (ratio x word, x)) ?pass"
  have run: "get_close_matches word cands cutoff = Inr (map snd (nlargest1 ?result))"
    using assms by (simp add: get_close_matches_def passes_iff)
  show ?thesis
  proof (cases "\<exists>x \<in> set cands. cutoff \<le> ratio x word")
    case False
    then have "?result = []" by (auto simp: filter_empty_conv)
    then have "nlargest1 ?result = []" by (simp add: nlargest1_def)
    with run False show ?thesis by simp
  next
    case True
    then have ne: "?result \<noteq> []" by (auto simp: filter_empty_conv)
    from nlargest1_cases [of ?result] ne
    obtain p where p: "p \<in> set ?result" "nlargest1 ?result = [p]"
      "\<forall>y \<in> set ?result. fst y \<le> fst p" by blast
    from p(1) have "p \<in> (\<lambda>x. (ratio x word, x)) ` set ?pass" by simp
    then obtain best where "best \<in> set ?pass" and best1: "p = (ratio best word, best)"
      by blast
    then have best: "p = (ratio best word, best)" "best \<in> set cands"
      "cutoff \<le> ratio best word" by simp_all
    have "ratio x word \<le> ratio best word" if x: "x \<in> set cands" for x
    proof (cases "cutoff \<le> ratio x word")
      case True
      with x have "(ratio x word, x) \<in> set ?result" by simp
      with p(3) best(1) show ?thesis by fastforce
    next
      case False
      with best(3) show ?thesis by simp
    qed
    with run p(2) best True show ?thesis by auto
  qed
qed



lemma set_dict_keys: "set (dict_keys rs) = (\<lambda>r. normalize (name r)) ` set rs"
  by (simp add: dict_keys_def)

lemma role_map_SomeD:
  assumes "role_map rs k = Some c"
  shows "\<exists>r \<in> set rs. normalize (name r) = k \<and> name r = c"
proof -
  from assms obtain r where r: "find (\<lambda>r. normalize (name r) = k) (rev rs) = Some r" "name r = c"
    by (auto simp: role_map_lookup split: option.splits)
  from find_SomeD [OF r(1)] have "r \<in> set rs" "normalize (name r) = k" by simp_all
  with r(2) show ?thesis by blast
qed

lemma role_map_key:
  assumes "k \<in> set (dict_keys rs)"
  shows "\<exists>r \<in> set rs. normalize (name r) = k \<and> role_map rs k = Some (name r)"
proof -
  from assms obtain r0 where "r0 \<in> set (rev rs)" "normalize (name r0) = k"
    by (auto simp: set_dict_keys)
  then have "find (\<lambda>r. normalize (name r) = k) (rev rs) \<noteq> None"
    by (auto simp: find_None_iff)
  then obtain r where r: "find (\<lambda>r. normalize (name r) = k) (rev rs) = Some r" by auto
  then have "role_map rs k = Some (name r)" by (simp add: role_map_lookup)
  moreover from find_SomeD [OF r] have "r \<in> set rs" "normalize (name r) = k" by simp_all
  ultimately show ?thesis by blast
qed

lemma role_map_None: "role_map rs k = None \<Longrightarrow> k \<notin> set (dict_keys rs)"
  using role_map_key [of k rs] by auto

lemma find_by_name:
  assumes "r \<in> set rs"
  shows "\<exists>found \<in> set rs. find (\<lambda>x. name x = name r) rs = Some found \<and> name found = name r"
proof -
  from assms have "find (\<lambda>x. name x = name r) rs \<noteq> None" by (auto simp: find_None_iff)
  then obtain found where f: "find (\<lambda>x. name x = name r) rs = Some found" by auto
  from find_SomeD [OF f] have "found \<in> set rs" "name found = name r" by simp_all
  with f show ?thesis by blast
qed

lemma layer2_spec:
  "if \<exists>k \<in> set (dict_keys rs). 17 / 20 \<le> ratio k w
   then \<exists>best \<in> set (dict_keys rs). \<exists>found \<in> set rs.
          17 / 20 \<le> ratio best w
          \<and> (\<forall>k \<in> set (dict_keys rs). ratio k w \<le> ratio best w)
          \<and> role_map rs best = Some (name found)
          \<and> find (\<lambda>x. name x = name found) rs = Some found
          \<and> layer2 rs raw w = Json_answer (answer found (19 / 20) ''fuzzy_match'' (Some raw))
   else layer2 rs raw w = Ai_inference raw"
proof -
  have cut: "(0::rat) \<le> 17 / 20" "(17::rat) / 20 \<le> 1" by simp_all
  from get_close_matches_spec [OF cut, of w "dict_keys rs"]
  obtain ms where run: "get_close_matches w (dict_keys rs) (17 / 20) = Inr ms"
    and ms: "if \<exists>x \<in> set (dict_keys rs). 17 / 20 \<le> ratio x w
             then \<exists>best \<in> set (dict_keys rs). ms = [best] \<and> 17 / 20 \<le> ratio best w
                    \<and> (\<forall>x \<in> set (dict_keys rs). ratio x w \<le> ratio best w)
             else ms = []" by blast
  show ?thesis
  proof (cases "\<exists>k \<in> set (dict_keys rs). 17 / 20 \<le> ratio k w")
    case False
    with ms have "ms = []" by simp
    with run False show ?thesis by (simp add: layer2_def)
  next
    case True
    with ms obtain best where best: "best \<in> set (dict_keys rs)" "ms = [best]"
      "17 / 20 \<le> ratio best w" "\<forall>x \<in> set (dict_keys rs). ratio x w \<le> ratio best w"
      by auto
    from role_map_key [OF best(1)] obtain r where r: "r \<in> set rs"
      "role_map rs best = Some (name r)" by blast
    from find_by_name [OF r(1)] obtain found where found: "found \<in> set rs"
      "find (\<lambda>x. name x = name r) rs = Some found" "name found = name r" by blast
    have l2: "layer2 rs raw w = Json_answer (answer found (19 / 20) ''fuzzy_match'' (Some raw))"
      by (simp add: layer2_def run best(2) r(2) found(2))
    have a: "role_map rs best = Some (name found)" using r(2) found(3) by simp
    have b: "find (\<lambda>x. name x = name found) rs = Some found" using found(2, 3) by simp
    from best(1) found(1) best(3) best(4) a b l2
    have "\<exists>best \<in> set (dict_keys rs). \<exists>found \<in> set rs.
          17 / 20 \<le> ratio best w
          \<and> (\<forall>k \<in> set (dict_keys rs). ratio k w \<le> ratio best w)
          \<and> role_map rs best = Some (name found)
          \<and> find (\<lambda>x. name x = name found) rs = Some found
          \<and> layer2 rs raw w = Json_answer (answer found (19 / 20) ''fuzzy_match'' (Some raw))"
      by blast
    with True show ?thesis by (simp only: if_True)
  qed
qed

lemma infer_industry_layer2:
  assumes "2 \<le> length (normalize raw)" "length (normalize raw) \<le> 100"
    "role_map rs (normalize raw) = None"
  shows "infer_industry rs (Some raw) = layer2 rs raw (normalize raw)"
  using assms by (simp add: infer_industry_def Let_def)

lemma normalize_softwares: "normalize ''Softwares Engineer'' = ''softwares engineer''"
  by code_simp

lemma normalize_software: "normalize ''Software Engineer'' = ''software engineer''"
  by code_simp

lemma normalize_plumber: "normalize ''Plumber'' = ''plumber''"
  by code_simp

lemma ratio_software: "ratio ''software engineer'' ''softwares engineer'' = 34 / 35"
  by code_simp

lemma ratio_softwares_self: "ratio ''softwares engineer'' ''softwares engineer'' = 1"
  by code_simp

lemma ratio_plumber_self: "ratio ''plumber'' ''plumber'' = 1"
  by code_simp

lemma softwares_engineer_resolves:
  assumes r: "r \<in> set rs" "name r = ''Software Engineer''"
    and d: "distinct (map (\<lambda>r. normalize (name r)) rs)"
    and others: "\<forall>k \<in> set (dict_keys rs).
                   k \<noteq> ''software engineer'' \<longrightarrow> ratio k ''softwares engineer'' < 34 / 35"
  shows "infer_industry rs (Some ''Softwares Engineer'')
           = Json_answer (answer r (19 / 20) ''fuzzy_match'' (Some ''Softwares Engineer''))"
proof -
  let ?w = "''softwares engineer''"
  have inj: "inj_on (\<lambda>r. normalize (name r)) (set rs)" using d by (rule distinct_map [THEN iffD1, THEN conjunct2])
  have key: "''software engineer'' \<in> set (dict_keys rs)"
    using r normalize_software by (force simp: set_dict_keys)
  have none: "role_map rs ?w = None"
  proof (rule ccontr)
    assume "role_map rs ?w \<noteq> None"
    then obtain c where "role_map rs ?w = Some c" by auto
    from role_map_SomeD [OF this] have "?w \<in> set (dict_keys rs)" by (force simp: set_dict_keys)
    with others have "ratio ?w ?w < 34 / 35" by auto
    then show False by (simp add: ratio_softwares_self)
  qed
  have run: "infer_industry rs (Some ''Softwares Engineer'') = layer2 rs ''Softwares Engineer'' ?w"
    using infer_industry_layer2 [of "''Softwares Engineer''" rs] none
    by (simp add: normalize_softwares)
  have ex: "\<exists>k \<in> set (dict_keys rs). 17 / 20 \<le> ratio k ?w"
    using key by (rule bexI [rotated]) (simp add: ratio_software)
  from layer2_spec [of rs ?w "''Softwares Engineer''"] ex
  obtain best found where best: "best \<in> set (dict_keys rs)" "found \<in> set rs"
    "\<forall>k \<in> set (dict_keys rs). ratio k ?w \<le> ratio best ?w"
    "role_map rs best = Some (name found)"
    "layer2 rs ''Softwares Engineer'' ?w
       = Json_answer (answer found (19 / 20) ''fuzzy_match'' (Some ''Softwares Engineer''))"
    by (simp only: if_True) blast
  from best(3) key have "34 / 35 \<le> ratio best ?w" by (auto simp: ratio_software [symmetric])
  with others best(1) have "best = ''software engineer''" by force
  with best(4) have "role_map rs ''software engineer'' = Some (name found)" by simp
  from role_map_SomeD [OF this] obtain r' where r': "r' \<in> set rs"
    "normalize (name r') = ''software engineer''" "name r' = name found" by blast
  have "normalize (name r') = normalize (name r)"
    using r'(2) r(2) normalize_software by simp
  from inj_onD [OF inj this r'(1) r(1)] have "r' = r" .
  with r'(3) have "normalize (name found) = normalize (name r)" by simp
  from inj_onD [OF inj this best(2) r(1)] have "found = r" .
  with run best(5) show ?thesis by simp
qed

lemma plumber_unresolved:
  assumes "\<forall>k \<in> set (dict_keys rs). ratio k ''plumber'' < 17 / 20"
  shows "infer_industry rs (Some ''Plumber'') = Ai_inference ''Plumber''"
proof -
  have none: "role_map rs ''plumber'' = None"
  proof (rule ccontr)
    assume "role_map rs ''plumber'' \<noteq> None"
    then obtain c where "role_map rs ''plumber'' = Some c" by auto
    from role_map_SomeD [OF this] have "''plumber'' \<in> set (dict_keys rs)"
      by (force simp: set_dict_keys)
    with assms have "ratio ''plumber'' ''plumber'' < 17 / 20" by auto
    then show False by (simp add: ratio_plumber_self)
  qed
  have run: "infer_industry rs (Some ''Plumber'') = layer2 rs ''Plumber'' ''plumber''"
    using infer_industry_layer2 [of "''Plumber''" rs] none by (simp add: normalize_plumber)
  from assms have "\<not> (\<exists>k \<in> set (dict_keys rs). 17 / 20 \<le> ratio k ''plumber'')" by force
  with layer2_spec [of rs "''plumber''" "''Plumber''"]
  have "layer2 rs ''Plumber'' ''plumber'' = Ai_inference ''Plumber''" by (simp only: if_False)
  with run show ?thesis by simp
qed

text \<open>
  C9.  When a role name of 2 to 100 characters has no exact match, the industry
  route looks for a close match among the normalized catalog names with the ratio of
  \<^verbatim>\<open>difflib.SequenceMatcher\<close> at cutoff 0.85.  If some normalized name has a
  ratio of at least 17/20 with the normalized input, the route answers with exactly one
  role, source \<open>fuzzy_match\<close>: the canonical name stored for a normalized name whose
  ratio is at least 17/20 and is the greatest of all; if none has, there is no match
  and the question goes on to layer 3.  In particular, in a catalog that holds
  \<open>Software Engineer\<close>, with one role per normalized name and no other name as close
  to the input (the ratio of \<open>software engineer\<close> is 34/35), the input
  \<open>Softwares Engineer\<close> resolves to that role; and \<open>Plumber\<close> does not resolve in
  a catalog where no normalized name reaches 17/20 with it.
\<close>

theorem fuzzy_resolution:
  "(2 \<le> length (normalize raw) \<and> length (normalize raw) \<le> 100
      \<and> role_map rs (normalize raw) = None \<longrightarrow>
      (if \<exists>k \<in> set (dict_keys rs). 17 / 20 \<le> ratio k (normalize raw)
       then \<exists>best \<in> set (dict_keys rs). \<exists>found \<in> set rs.
              17 / 20 \<le> ratio best (normalize raw)
              \<and> (\<forall>k \<in> set (dict_keys rs). ratio k (normalize raw) \<le> ratio best (normalize raw))
              \<and> role_map rs best = Some (name found)
              \<and> find (\<lambda>x. name x = name found) rs = Some found
              \<and> infer_industry rs (Some raw)
                  = Json_answer (answer found (19 / 20) ''fuzzy_match'' (Some raw))
       else infer_industry rs (Some raw) = Ai_inference raw))
   \<and> ratio ''software engineer'' (normalize ''Softwares Engineer'') = 34 / 35
   \<and> (r \<in> set rs \<and> name r = ''Software Engineer''
        \<and> distinct (map (\<lambda>r. normalize (name r)) rs)
        \<and> (\<forall>k \<in> set (dict_keys rs).
              k \<noteq> ''software engineer'' \<longrightarrow> ratio k (normalize ''Softwares Engineer'') < 34 / 35)
      \<longrightarrow> infer_industry rs (Some ''Softwares Engineer'')
            = Json_answer (answer r (19 / 20) ''fuzzy_match'' (Some ''Softwares Engineer'')))
   \<and> ((\<forall>k \<in> set (dict_keys rs). ratio k (normalize ''Plumber'') < 17 / 20)
      \<longrightarrow> infer_industry rs (Some ''Plumber'') = Ai_inference ''Plumber'')"
proof (intro conjI impI)
  assume a: "2 \<le> length (normalize raw) \<and> length (normalize raw) \<le> 100
      \<and> role_map rs (normalize raw) = None"
  then have "infer_industry rs (Some raw) = layer2 rs raw (normalize raw)"
    by (simp add: infer_industry_layer2)
  with layer2_spec [of rs "normalize raw" raw]
  show "if \<exists>k \<in> set (dict_keys rs). 17 / 20 \<le> ratio k (normalize raw)
       then \<exists>best \<in> set (dict_keys rs). \<exists>found \<in> set rs.
              17 / 20 \<le> ratio best (normalize raw)
              \<and> (\<forall>k \<in> set (dict_keys rs). ratio k (normalize raw) \<le> ratio best (normalize raw))
              \<and> role_map rs best = Some (name found)
              \<and> find (\<lambda>x. name x = name found) rs = Some found
              \<and> infer_industry rs (Some raw)
                  = Json_answer (answer found (19 / 20) ''fuzzy_match'' (Some raw))
       else infer_industry rs (Some raw) = Ai_inference raw"
    by (simp only:)
next
  show "ratio ''software engineer'' (normalize ''Softwares Engineer'') = 34 / 35"
    by (simp only: normalize_softwares ratio_software)
next
  assume "r \<in> set rs \<and> name r = ''Software Engineer''
        \<and> distinct (map (\<lambda>r. normalize (name r)) rs)
        \<and> (\<forall>k \<in> set (dict_keys rs).
              k \<noteq> ''software engineer'' \<longrightarrow> ratio k (normalize ''Softwares Engineer'') < 34 / 35)"
  then show "infer_industry rs (Some ''Softwares Engineer'')
            = Json_answer (answer r (19 / 20) ''fuzzy_match'' (Some ''Softwares Engineer''))"
    by (simp only: normalize_softwares) (rule softwares_engineer_resolves, blast+)
next
  assume "\<forall>k \<in> set (dict_keys rs). ratio k (normalize ''Plumber'') < 17 / 20"
  then show "infer_industry rs (Some ''Plumber'') = Ai_inference ''Plumber''"
    by (simp only: normalize_plumber) (rule plumber_unresolved)
qed

theorem fuzzy_resolution_witness:
  "role_map tech_catalog (normalize ''Softwares Engineer'') = None
   \<and> infer_industry tech_catalog (Some ''Softwares Engineer'')
       = Json_answer \<lparr>answer_role = ''Software Engineer'', industry = ''Technology'',
           confidence = 19 / 20, source = ''fuzzy_match'',
           original_input = Some ''Softwares Engineer'', answer_metrics = (9, 5, 4, 3)\<rparr>
   \<and> infer_industry tech_catalog (Some ''Plumber'') = Ai_inference ''Plumber''"
proof -
  let ?r = "\<lparr>name = ''Software Engineer'', technical = Some 9, creative = Some 5,
             business = Some 4, customer = Some 3\<rparr>"
  have none: "role_map tech_catalog (normalize ''Softwares Engineer'') = None"
    by code_simp
  have h1: "?r \<in> set tech_catalog \<and> name ?r = ''Software Engineer''
        \<and> distinct (map (\<lambda>r. normalize (name r)) tech_catalog)"
    by code_simp
  have h2: "\<forall>k \<in> set (dict_keys tech_catalog).
              k \<noteq> ''software engineer'' \<longrightarrow> ratio k (normalize ''Softwares Engineer'') < 34 / 35"
    by code_simp
  have h3: "\<forall>k \<in> set (dict_keys tech_catalog). ratio k (normalize ''Plumber'') < 17 / 20"
    by code_simp
  from fuzzy_resolution [where raw = "''Softwares Engineer''" and rs = tech_catalog and r = ?r]
    h1 h2 h3
  have "infer_industry tech_catalog (Some ''Softwares Engineer'')
          = Json_answer (answer ?r (19 / 20) ''fuzzy_match'' (Some ''Softwares Engineer''))"
    and "infer_industry tech_catalog (Some ''Plumber'') = Ai_inference ''Plumber''"
    by blast+
  with none show ?thesis by (simp add: answer_def metrics_of_role_def get5_def)
qed

end
